theory Spec2Isabelle
  imports Main "HOL-Library.Multiset"
begin

section \<open>Python values, dictionaries and exceptions\<close>

text \<open>
  The module \<^verbatim>\<open>queue_multithread.py\<close> builds dictionaries with string keys whose
  values are strings or integers, and hands them to \<^verbatim>\<open>csv.DictWriter\<close>. A dictionary
  is an association list in insertion order; integers are Python's unbounded ones.
\<close>

datatype py_error = ZeroDivisionError | ValueError | IndexError | RuntimeError

datatype pyval = PyStr string | PyInt int

type_synonym pydict = "(string \<times> pyval) list"

definition py_floordiv :: "int \<Rightarrow> int \<Rightarrow> py_error + int" where
  \<comment> \<open>\<^verbatim>\<open>a // b\<close>: floor division, \<^verbatim>\<open>ZeroDivisionError\<close> when the divisor is zero.\<close>
  "py_floordiv a b = (if b = 0 then Inl ZeroDivisionError else Inr (a div b))"

section \<open>The module-level random source\<close>

text \<open>
  \<^verbatim>\<open>random.choice\<close> and \<^verbatim>\<open>random.randint\<close> are functions of the standard library that
  read and advance one hidden generator shared by the whole process. The generator is
  a stream of raw draws together with the number of draws consumed so far; each call
  consumes one draw and maps it into the requested range.
\<close>

record random_state =
  source :: "nat \<Rightarrow> nat"
  pos :: nat

type_synonym 'a rand = "random_state \<Rightarrow> py_error + ('a \<times> random_state)"

definition getrand :: "random_state \<Rightarrow> nat \<times> random_state" where
  "getrand w = (source w (pos w), w\<lparr>pos := Suc (pos w)\<rparr>)"

definition randint :: "int \<Rightarrow> int \<Rightarrow> pyval rand" where
  \<comment> \<open>\<^verbatim>\<open>random.randint(a, b)\<close>: an integer N with a <= N <= b; \<^verbatim>\<open>ValueError\<close> on an empty range.\<close>
  "randint a b w =
     (if b < a then Inl ValueError
      else (case getrand w of (r, w') \<Rightarrow> Inr (PyInt (a + int (r mod nat (b - a + 1))), w')))"

definition choice :: "pyval list \<Rightarrow> pyval rand" where
  \<comment> \<open>\<^verbatim>\<open>random.choice(seq)\<close>: an element of the sequence; \<^verbatim>\<open>IndexError\<close> when it is empty.\<close>
  "choice xs w =
     (if xs = [] then Inl IndexError
      else (case getrand w of (r, w') \<Rightarrow> Inr (xs ! (r mod length xs), w')))"

section \<open>DataGenerator\<close>

record DataGenerator =
  num_threads :: int
  num_records :: int

definition names :: "pyval list" where
  "names = [PyStr ''Alice'', PyStr ''Bob'', PyStr ''Charlie'', PyStr ''David'', PyStr ''Eve'']"

definition cities :: "pyval list" where
  "cities = [PyStr ''New York'', PyStr ''Los Angeles'', PyStr ''Chicago'', PyStr ''Houston'',
     PyStr ''Miami'']"

definition generate_name :: "pyval rand" where
  "generate_name = choice names"

definition generate_city :: "pyval rand" where
  "generate_city = choice cities"

text \<open>
  The four field expressions of the worker's dictionary literal are looked up when they
  run (\<^verbatim>\<open>self._generate_name\<close> through the instance, \<^verbatim>\<open>random.randint\<close> through the
  module), so a subclass or a test can replace them. The worker is therefore modelled over
  the four operations they resolve to; \<open>source_factory\<close> is what they resolve to in the
  repository.
\<close>

record factory =
  gen_name :: "pyval rand"
  gen_age :: "pyval rand"
  gen_city :: "pyval rand"
  gen_salary :: "pyval rand"

definition source_factory :: factory where
  "source_factory =
     \<lparr>gen_name = generate_name, gen_age = randint 20 50,
      gen_city = generate_city, gen_salary = randint 30000 100000\<rparr>"

definition make_record :: "pyval \<Rightarrow> pyval \<Rightarrow> pyval \<Rightarrow> pyval \<Rightarrow> pydict" where
  "make_record n a c s = [(''name'', n), (''age'', a), (''city'', c), (''salary'', s)]"

subsection \<open>One worker thread\<close>

text \<open>
  A worker runs \<^verbatim>\<open>_generate_worker\<close>. Its control state names the next action that
  touches anything shared, with the locals it holds: entering the function (which
  evaluates \<^verbatim>\<open>range(self.num_records // self.num_threads)\<close>), the four draws of one
  iteration in the order of the dictionary literal, and the \<^verbatim>\<open>put\<close>. The number carried is
  the count of iterations that remain after the current one. An exception that escapes
  the target ends the thread; it is not passed to the thread that joins.
\<close>

datatype worker_pc =
    Enter
  | DrawName nat
  | DrawAge nat pyval
  | DrawCity nat pyval pyval
  | DrawSalary nat pyval pyval pyval
  | Put nat pydict
  | Returned
  | Raised py_error

fun loop_head :: "nat \<Rightarrow> worker_pc" where
  "loop_head 0 = Returned"
| "loop_head (Suc m) = DrawName m"

fun worker_step ::
  "factory \<Rightarrow> DataGenerator \<Rightarrow> worker_pc \<Rightarrow> random_state \<Rightarrow> pydict list
     \<Rightarrow> worker_pc \<times> random_state \<times> pydict list" where
  "worker_step f g Enter w q =
     (case py_floordiv (num_records g) (num_threads g) of
        Inl e \<Rightarrow> (Raised e, w, q)
      | Inr n \<Rightarrow> (loop_head (nat n), w, q))"
| "worker_step f g (DrawName m) w q =
     (case gen_name f w of
        Inl e \<Rightarrow> (Raised e, w, q)
      | Inr (v, w') \<Rightarrow> (DrawAge m v, w', q))"
| "worker_step f g (DrawAge m n) w q =
     (case gen_age f w of
        Inl e \<Rightarrow> (Raised e, w, q)
      | Inr (v, w') \<Rightarrow> (DrawCity m n v, w', q))"
| "worker_step f g (DrawCity m n a) w q =
     (case gen_city f w of
        Inl e \<Rightarrow> (Raised e, w, q)
      | Inr (v, w') \<Rightarrow> (DrawSalary m n a v, w', q))"
| "worker_step f g (DrawSalary m n a c) w q =
     (case gen_salary f w of
        Inl e \<Rightarrow> (Raised e, w, q)
      | Inr (v, w') \<Rightarrow> (Put m (make_record n a c v), w', q))"
| "worker_step f g (Put m d) w q = (loop_head m, w, q @ [d])"
| "worker_step f g Returned w q = (Returned, w, q)"
| "worker_step f g (Raised e) w q = (Raised e, w, q)"

fun finished :: "worker_pc \<Rightarrow> bool" where
  "finished Returned = True"
| "finished (Raised e) = True"
| "finished pc = False"

fun is_raised :: "worker_pc \<Rightarrow> bool" where
  "is_raised (Raised e) = True"
| "is_raised pc = False"

subsection \<open>The threads of one call\<close>

text \<open>
  The state of a call: the generator object, the random source of the process, the queue
  created by the call and the control state of every worker. A schedule is the list of
  worker indices in the order in which the workers take their atomic actions; an index
  that names no worker, or a worker that has ended, leaves the state as it is.
\<close>

record system =
  self :: DataGenerator
  world :: random_state
  data_queue :: "pydict list"
  threads :: "worker_pc list"

definition step :: "factory \<Rightarrow> nat \<Rightarrow> system \<Rightarrow> system" where
  "step f i s =
     (if i < length (threads s) then
        (case worker_step f (self s) (threads s ! i) (world s) (data_queue s) of
           (pc, w, q) \<Rightarrow> s\<lparr>world := w, data_queue := q, threads := (threads s)[i := pc]\<rparr>)
      else s)"

text \<open>
  The loop of \<^verbatim>\<open>thread.join()\<close> calls returns once every worker has ended. When the
  schedule has been followed to its end, the workers that have not ended run on to their
  end, in the order in which they are joined. \<open>steps_left\<close> is the number of actions a
  worker has before it when none of them fails: one for entering, five for each
  iteration.
\<close>

fun steps_left :: "DataGenerator \<Rightarrow> worker_pc \<Rightarrow> nat" where
  "steps_left g Enter = 1 + 5 * nat (num_records g div num_threads g)"
| "steps_left g (DrawName m) = 5 + 5 * m"
| "steps_left g (DrawAge m n) = 4 + 5 * m"
| "steps_left g (DrawCity m n a) = 3 + 5 * m"
| "steps_left g (DrawSalary m n a c) = 2 + 5 * m"
| "steps_left g (Put m d) = 1 + 5 * m"
| "steps_left g Returned = 0"
| "steps_left g (Raised e) = 0"

definition run_to_end :: "factory \<Rightarrow> nat \<Rightarrow> system \<Rightarrow> system" where
  \<comment> \<open>\<^verbatim>\<open>thread.join()\<close>: the caller waits while worker \<open>i\<close> runs on to its end.\<close>
  "run_to_end f i s = ((step f i) ^^ (steps_left (self s) (threads s ! i))) s"

definition join_threads :: "factory \<Rightarrow> system \<Rightarrow> system" where
  "join_threads f s = fold (run_to_end f) [0..<length (threads s)] s"

fun drain :: "pydict list \<Rightarrow> pydict list \<Rightarrow> pydict list" where
  \<comment> \<open>\<^verbatim>\<open>while not data_queue.empty(): data.append(data_queue.get())\<close>\<close>
  "drain [] data = data"
| "drain (x # q) data = drain q (data @ [x])"

record outcome =
  returned :: "py_error + pydict list"
  self_after :: DataGenerator
  world_after :: random_state
  workers :: "worker_pc list"

definition spawn :: "DataGenerator \<Rightarrow> random_state \<Rightarrow> system" where
  \<comment> \<open>a fresh queue, and one started thread for each element of \<^verbatim>\<open>range(self.num_threads)\<close>\<close>
  "spawn g w =
     \<lparr>self = g, world = w, data_queue = [], threads = replicate (nat (num_threads g)) Enter\<rparr>"

text \<open>
  \<^verbatim>\<open>generate_data\<close>: create the queue and start the workers, let them run as the
  schedule says, join them all, drain the queue into a list and return it. The caller
  has no statement that raises, so what it returns is always a list; the outcome also
  records the generator object and the random source as the call leaves them, and how
  each worker ended.
\<close>

definition generate_data_with :: "factory \<Rightarrow> DataGenerator \<Rightarrow> nat list \<Rightarrow> random_state \<Rightarrow> outcome" where
  "generate_data_with f g sched w =
     (let s1 = fold (step f) sched (spawn g w);
          s2 = join_threads f s1;
          data = drain (data_queue s2) []
      in \<lparr>returned = Inr data, self_after = self s2, world_after = world s2,
          workers = threads s2\<rparr>)"

definition generate_data :: "DataGenerator \<Rightarrow> nat list \<Rightarrow> random_state \<Rightarrow> outcome" where
  "generate_data = generate_data_with source_factory"

section \<open>CSVWriter\<close>

text \<open>
  \<^verbatim>\<open>csv.DictWriter\<close> turns a dictionary into the list of its values in the order of
  \<^verbatim>\<open>fieldnames\<close>, filling a missing key with the empty string and raising
  \<^verbatim>\<open>ValueError\<close> on a key that is not a field name. The file is the list of rows written,
  each a list of cells; how the library prints a cell is below this model.
\<close>

definition fieldnames :: "string list" where
  "fieldnames = [''name'', ''age'', ''city'', ''salary'']"

definition dict_to_list :: "string list \<Rightarrow> pydict \<Rightarrow> py_error + pyval list" where
  "dict_to_list fns d =
     (if \<exists>k \<in> set (map fst d). k \<notin> set fns then Inl ValueError
      else Inr (map (\<lambda>k. case map_of d k of None \<Rightarrow> PyStr [] | Some v \<Rightarrow> v) fns))"

fun write_rows :: "pydict list \<Rightarrow> pyval list list \<Rightarrow> py_error option \<times> pyval list list" where
  "write_rows [] out = (None, out)"
| "write_rows (row # rest) out =
     (case dict_to_list fieldnames row of
        Inl e \<Rightarrow> (Some e, out)
      | Inr cells \<Rightarrow> write_rows rest (out @ [cells]))"

definition write_to_csv :: "pydict list \<Rightarrow> py_error option \<times> pyval list list" where
  \<comment> \<open>\<^verbatim>\<open>writer.writeheader()\<close>, then one \<^verbatim>\<open>writer.writerow(row)\<close> for each element of the data\<close>
  "write_to_csv data = write_rows data [map PyStr fieldnames]"

section \<open>Quantities and invariants of the proofs\<close>

text \<open>
  What a worker still owes to the queue, what it has drawn, what a valid record is, a
  record factory that fails, and the schedules that never preempt a worker inside a
  record.
\<close>

text \<open>
  The number of records a worker has still to put if nothing fails; a worker that has
  ended with an exception counts for the one record it was making.
\<close>

fun owed :: "DataGenerator \<Rightarrow> worker_pc \<Rightarrow> nat" where
  "owed g Enter = nat (num_records g div num_threads g)"
| "owed g (DrawName m) = Suc m"
| "owed g (DrawAge m n) = Suc m"
| "owed g (DrawCity m n a) = Suc m"
| "owed g (DrawSalary m n a c) = Suc m"
| "owed g (Put m d) = Suc m"
| "owed g Returned = 0"
| "owed g (Raised e) = 1"

definition expected_length :: "DataGenerator \<Rightarrow> nat" where
  "expected_length g = nat (num_threads g) * nat (num_records g div num_threads g)"

definition count_inv :: "DataGenerator \<Rightarrow> system \<Rightarrow> bool" where
  "count_inv g s \<longleftrightarrow>
     self s = g \<and> length (threads s) = nat (num_threads g) \<and>
     length (data_queue s) + sum_list (map (owed g) (threads s)) \<le> expected_length g \<and>
     ((\<forall>j<length (threads s). \<not> is_raised (threads s ! j)) \<longrightarrow>
        length (data_queue s) + sum_list (map (owed g) (threads s)) = expected_length g)"

subsection \<open>Valid records\<close>

definition age_ok :: "pyval \<Rightarrow> bool" where
  "age_ok v = (case v of PyInt a \<Rightarrow> 20 \<le> a \<and> a \<le> 50 | PyStr x \<Rightarrow> False)"

definition salary_ok :: "pyval \<Rightarrow> bool" where
  "salary_ok v = (case v of PyInt a \<Rightarrow> 30000 \<le> a \<and> a \<le> 100000 | PyStr x \<Rightarrow> False)"

definition valid_record :: "pydict \<Rightarrow> bool" where
  "valid_record r \<longleftrightarrow>
     map fst r = fieldnames \<and>
     (case map_of r ''name'' of Some v \<Rightarrow> v \<in> set names | None \<Rightarrow> False) \<and>
     (case map_of r ''age'' of Some v \<Rightarrow> age_ok v | None \<Rightarrow> False) \<and>
     (case map_of r ''city'' of Some v \<Rightarrow> v \<in> set cities | None \<Rightarrow> False) \<and>
     (case map_of r ''salary'' of Some v \<Rightarrow> salary_ok v | None \<Rightarrow> False)"

fun pc_ok :: "worker_pc \<Rightarrow> bool" where
  "pc_ok (DrawAge m n) = (n \<in> set names)"
| "pc_ok (DrawCity m n a) = (n \<in> set names \<and> age_ok a)"
| "pc_ok (DrawSalary m n a c) = (n \<in> set names \<and> age_ok a \<and> c \<in> set cities)"
| "pc_ok (Put m d) = valid_record d"
| "pc_ok pc = True"

text \<open>The number of draws a worker has made for the record it is making.\<close>

fun drawn :: "worker_pc \<Rightarrow> nat" where
  "drawn (DrawAge m n) = 1"
| "drawn (DrawCity m n a) = 2"
| "drawn (DrawSalary m n a c) = 3"
| "drawn (Put m d) = 4"
| "drawn pc = 0"

definition src_inv :: "DataGenerator \<Rightarrow> random_state \<Rightarrow> system \<Rightarrow> bool" where
  "src_inv g w0 s \<longleftrightarrow>
     self s = g \<and> length (threads s) = nat (num_threads g) \<and>
     (\<forall>pc \<in> set (threads s). \<not> is_raised pc \<and> pc_ok pc) \<and>
     (\<forall>r \<in> set (data_queue s). valid_record r) \<and>
     source (world s) = source w0 \<and>
     pos (world s) = pos w0 + 4 * length (data_queue s) + sum_list (map drawn (threads s))"

text \<open>The state in which \<^verbatim>\<open>generate_data\<close> drains the queue.\<close>

definition final :: "factory \<Rightarrow> DataGenerator \<Rightarrow> nat list \<Rightarrow> random_state \<Rightarrow> system" where
  "final f g sched w = join_threads f (fold (step f) sched (spawn g w))"


subsection \<open>The whole run as one schedule, and the records put\<close>

text \<open>
  The actions of the join, written out as a schedule: every worker that has not ended
  takes the actions it has left, worker after worker. A run is then the given schedule
  followed by this completion.
\<close>

definition completion :: "system \<Rightarrow> nat list" where
  "completion s =
     concat (map (\<lambda>i. replicate (steps_left (self s) (threads s ! i)) i)
       [0..<length (threads s)])"

definition whole_schedule :: "factory \<Rightarrow> DataGenerator \<Rightarrow> nat list \<Rightarrow> random_state \<Rightarrow> nat list" where
  "whole_schedule f g sched w = sched @ completion (fold (step f) sched (spawn g w))"

text \<open>
  The records handed to \<^verbatim>\<open>data_queue.put\<close> in the course of a schedule, each with the
  index of the worker that puts it, in the order of the put actions.
\<close>

fun puts_of :: "nat \<Rightarrow> worker_pc \<Rightarrow> (nat \<times> pydict) list" where
  "puts_of i (Put m d) = [(i, d)]"
| "puts_of i pc = []"

fun put_trace :: "factory \<Rightarrow> nat list \<Rightarrow> system \<Rightarrow> (nat \<times> pydict) list" where
  "put_trace f [] s = []"
| "put_trace f (i # sched) s =
     (if i < length (threads s) then puts_of i (threads s ! i) else [])
       @ put_trace f sched (step f i s)"

definition puts_by :: "nat \<Rightarrow> (nat \<times> pydict) list \<Rightarrow> nat" where
  "puts_by i tr = length (filter (\<lambda>p. fst p = i) tr)"

subsection \<open>Runs that keep the draws of a record together\<close>

text \<open>
  A worker is inside a record when it has made the first but not yet the last of the four
  draws. A run keeps the draws of each record together when no worker draws while another
  worker is inside a record; entering, putting and the actions of a worker that has ended
  draw nothing and may fall anywhere.
\<close>

fun mid_record :: "worker_pc \<Rightarrow> bool" where
  "mid_record (DrawAge m n) = True"
| "mid_record (DrawCity m n a) = True"
| "mid_record (DrawSalary m n a c) = True"
| "mid_record pc = False"

fun is_draw :: "worker_pc \<Rightarrow> bool" where
  "is_draw (DrawName m) = True"
| "is_draw (DrawAge m n) = True"
| "is_draw (DrawCity m n a) = True"
| "is_draw (DrawSalary m n a c) = True"
| "is_draw pc = False"

definition undisturbed :: "nat \<Rightarrow> system \<Rightarrow> bool" where
  "undisturbed i s \<longleftrightarrow> (\<forall>j<length (threads s). j \<noteq> i \<longrightarrow> \<not> mid_record (threads s ! j))"

definition draws_next :: "nat \<Rightarrow> system \<Rightarrow> bool" where
  "draws_next i s \<longleftrightarrow> i < length (threads s) \<and> is_draw (threads s ! i)"

fun draw_atomic :: "factory \<Rightarrow> nat list \<Rightarrow> system \<Rightarrow> bool" where
  "draw_atomic f [] s = True"
| "draw_atomic f (i # sched) s =
     ((draws_next i s \<longrightarrow> undisturbed i s) \<and> draw_atomic f sched (step f i s))"

definition atomic_schedule :: "DataGenerator \<Rightarrow> nat list \<Rightarrow> random_state \<Rightarrow> bool" where
  "atomic_schedule g sched w =
     draw_atomic source_factory (whole_schedule source_factory g sched w) (spawn g w)"

text \<open>
  The record that the four draws at positions \<open>b\<close> to \<open>b + 3\<close> of a stream give, and the
  \<open>j\<close>-th such record counted from the position of a random source.
\<close>

definition name_at :: "(nat \<Rightarrow> nat) \<Rightarrow> nat \<Rightarrow> pyval" where
  "name_at src p = names ! (src p mod length names)"

definition age_at :: "(nat \<Rightarrow> nat) \<Rightarrow> nat \<Rightarrow> pyval" where
  "age_at src p = PyInt (20 + int (src p mod 31))"

definition city_at :: "(nat \<Rightarrow> nat) \<Rightarrow> nat \<Rightarrow> pyval" where
  "city_at src p = cities ! (src p mod length cities)"

definition salary_at :: "(nat \<Rightarrow> nat) \<Rightarrow> nat \<Rightarrow> pyval" where
  "salary_at src p = PyInt (30000 + int (src p mod 70001))"

definition record_from :: "(nat \<Rightarrow> nat) \<Rightarrow> nat \<Rightarrow> pydict" where
  "record_from src b =
     make_record (name_at src b) (age_at src (b + 1)) (city_at src (b + 2)) (salary_at src (b + 3))"

definition record_at :: "random_state \<Rightarrow> nat \<Rightarrow> pydict" where
  "record_at w j = record_from (source w) (pos w + 4 * j)"

fun built :: "worker_pc \<Rightarrow> nat" where
  "built (Put m d) = 1"
| "built pc = 0"

fun part_drawn :: "worker_pc \<Rightarrow> nat" where
  "part_drawn (DrawAge m n) = 1"
| "part_drawn (DrawCity m n a) = 2"
| "part_drawn (DrawSalary m n a c) = 3"
| "part_drawn pc = 0"

fun pending :: "worker_pc \<Rightarrow> pydict multiset" where
  "pending (Put m d) = {#d#}"
| "pending pc = {#}"

fun completes :: "worker_pc \<Rightarrow> bool" where
  "completes (DrawSalary m n a c) = True"
| "completes pc = False"

fun partial_ok :: "(nat \<Rightarrow> nat) \<Rightarrow> nat \<Rightarrow> worker_pc \<Rightarrow> bool" where
  "partial_ok src b (DrawAge m n) = (n = name_at src b)"
| "partial_ok src b (DrawCity m n a) = (n = name_at src b \<and> a = age_at src (b + 1))"
| "partial_ok src b (DrawSalary m n a c) =
     (n = name_at src b \<and> a = age_at src (b + 1) \<and> c = city_at src (b + 2))"
| "partial_ok src b pc = True"

definition atomic_inv :: "DataGenerator \<Rightarrow> random_state \<Rightarrow> system \<Rightarrow> bool" where
  "atomic_inv g w0 s \<longleftrightarrow>
     src_inv g w0 s \<and>
     mset (data_queue s) + sum_list (map pending (threads s)) =
       mset (map (record_at w0)
         [0..<length (data_queue s) + sum_list (map built (threads s))]) \<and>
     (\<forall>j<length (threads s). mid_record (threads s ! j) \<longrightarrow>
        sum_list (map part_drawn (threads s)) = part_drawn (threads s ! j) \<and>
        partial_ok (source w0)
          (pos w0 + 4 * (length (data_queue s) + sum_list (map built (threads s))))
          (threads s ! j))"

subsection \<open>Records drawn from a window of the random source\<close>

text \<open>
  A record is drawn from the window from \<open>lo\<close> to \<open>hi\<close> of a stream when its name, age,
  city and salary are the values of four draws at increasing positions in the window.
\<close>

definition from_source :: "(nat \<Rightarrow> nat) \<Rightarrow> nat \<Rightarrow> nat \<Rightarrow> pydict \<Rightarrow> bool" where
  "from_source src lo hi r \<longleftrightarrow>
     (\<exists>p1 \<in> {lo..<hi}. \<exists>p2 \<in> {p1<..<hi}. \<exists>p3 \<in> {p2<..<hi}. \<exists>p4 \<in> {p3<..<hi}.
        r = make_record (name_at src p1) (age_at src p2) (city_at src p3) (salary_at src p4))"

fun pc_from :: "(nat \<Rightarrow> nat) \<Rightarrow> nat \<Rightarrow> nat \<Rightarrow> worker_pc \<Rightarrow> bool" where
  "pc_from src lo hi (DrawAge m n) = (\<exists>p1 \<in> {lo..<hi}. n = name_at src p1)"
| "pc_from src lo hi (DrawCity m n a) =
     (\<exists>p1 \<in> {lo..<hi}. \<exists>p2 \<in> {p1<..<hi}. n = name_at src p1 \<and> a = age_at src p2)"
| "pc_from src lo hi (DrawSalary m n a c) =
     (\<exists>p1 \<in> {lo..<hi}. \<exists>p2 \<in> {p1<..<hi}. \<exists>p3 \<in> {p2<..<hi}.
        n = name_at src p1 \<and> a = age_at src p2 \<and> c = city_at src p3)"
| "pc_from src lo hi (Put m d) = from_source src lo hi d"
| "pc_from src lo hi pc = True"

definition from_inv :: "DataGenerator \<Rightarrow> random_state \<Rightarrow> system \<Rightarrow> bool" where
  "from_inv g w0 s \<longleftrightarrow>
     src_inv g w0 s \<and>
     (\<forall>pc \<in> set (threads s). pc_from (source w0) (pos w0) (pos (world s)) pc) \<and>
     (\<forall>r \<in> set (data_queue s). from_source (source w0) (pos w0) (pos (world s)) r)"

section \<open>Steps, schedules and the join\<close>

lemma drain_append: "drain q data = data @ q"
  by (induction q arbitrary: data) simp_all

lemma step_self: "self (step f i s) = self s"
  by (simp add: step_def split: prod.splits)

lemma step_length: "length (threads (step f i s)) = length (threads s)"
  by (simp add: step_def split: prod.splits)

lemma step_other: "j \<noteq> i \<Longrightarrow> threads (step f i s) ! j = threads s ! j"
  by (simp add: step_def split: prod.splits)

lemma step_out_of_range: "\<not> i < length (threads s) \<Longrightarrow> step f i s = s"
  by (simp add: step_def)

lemma step_finished:
  "finished (threads s ! i) \<Longrightarrow> step f i s = s"
  by (cases "threads s ! i") (auto simp: step_def list_update_same_conv)

lemma step_unfold:
  assumes "i < length (threads s)"
  obtains pc' w' q' where
    "worker_step f (self s) (threads s ! i) (world s) (data_queue s) = (pc', w', q')"
    "step f i s = s\<lparr>world := w', data_queue := q', threads := (threads s)[i := pc']\<rparr>"
  using assms by (cases "worker_step f (self s) (threads s ! i) (world s) (data_queue s)")
    (simp add: step_def)

lemma fold_step_inv:
  assumes "\<And>i s. P s \<Longrightarrow> P (step f i s)" and "P s"
  shows "P (fold (step f) sched s)"
  using assms(2)
proof (induction sched arbitrary: s)
  case Nil
  then show ?case by simp
next
  case (Cons i sched)
  from Cons.prems have "P (step f i s)" by (rule assms(1))
  then have "P (fold (step f) sched (step f i s))" by (rule Cons.IH)
  then show ?case by simp
qed

lemma funpow_step_inv:
  assumes "\<And>s. P s \<Longrightarrow> P (step f i s)" and "P s"
  shows "P ((step f i ^^ n) s)"
proof (induction n)
  case 0
  show ?case using assms(2) by simp
next
  case (Suc n)
  then have "P (step f i ((step f i ^^ n) s))" by (rule assms(1))
  then show ?case by simp
qed

lemma fold_run_to_end_inv:
  assumes "\<And>i s. P s \<Longrightarrow> P (step f i s)" and "P s"
  shows "P (fold (run_to_end f) xs s)"
  using assms(2)
proof (induction xs arbitrary: s)
  case Nil
  then show ?case by simp
next
  case (Cons x xs)
  have "P (run_to_end f x s)"
    unfolding run_to_end_def using assms(1) Cons.prems by (rule funpow_step_inv)
  then show ?case using Cons.IH by simp
qed

lemma join_threads_inv:
  assumes "\<And>i s. P s \<Longrightarrow> P (step f i s)" and "P s"
  shows "P (join_threads f s)"
  unfolding join_threads_def using assms by (rule fold_run_to_end_inv)

lemma pipeline_inv:
  assumes "\<And>i s. P s \<Longrightarrow> P (step f i s)" and "P (spawn g w)"
  shows "P (join_threads f (fold (step f) sched (spawn g w)))"
proof -
  have "P (fold (step f) sched (spawn g w))"
    using assms by (rule fold_step_inv)
  with assms(1) show ?thesis by (rule join_threads_inv)
qed

lemma steps_left_loop_head: "steps_left g (loop_head m) = 5 * m"
  by (cases m) simp_all

lemma steps_left_zero: "steps_left g pc = 0 \<Longrightarrow> finished pc"
  by (cases pc) simp_all

lemma worker_step_steps_left:
  "worker_step f g pc w q = (pc', w', q') \<Longrightarrow> steps_left g pc' \<le> steps_left g pc - 1"
  by (cases pc)
     (auto simp: py_floordiv_def steps_left_loop_head split: sum.splits prod.splits if_splits)

lemma steps_left_step:
  assumes "i < length (threads s)"
  shows "steps_left (self (step f i s)) (threads (step f i s) ! i)
           \<le> steps_left (self s) (threads s ! i) - 1"
proof -
  obtain pc' w' q' where
    ws: "worker_step f (self s) (threads s ! i) (world s) (data_queue s) = (pc', w', q')"
    and st: "step f i s = s\<lparr>world := w', data_queue := q', threads := (threads s)[i := pc']\<rparr>"
    using assms by (rule step_unfold)
  show ?thesis using worker_step_steps_left [OF ws] assms by (simp add: st)
qed

lemma funpow_finished:
  "i < length (threads s) \<Longrightarrow> steps_left (self s) (threads s ! i) \<le> n
     \<Longrightarrow> finished (threads ((step f i ^^ n) s) ! i)"
proof (induction n arbitrary: s)
  case 0
  then show ?case by (simp add: steps_left_zero)
next
  case (Suc n)
  have "steps_left (self (step f i s)) (threads (step f i s) ! i) \<le> n"
    using steps_left_step [OF Suc.prems(1), of f] Suc.prems(2) by linarith
  then have "finished (threads ((step f i ^^ n) (step f i s)) ! i)"
    using Suc.IH [of "step f i s"] Suc.prems(1) by (simp add: step_length)
  then show ?case by (simp only: funpow_Suc_right o_apply)
qed

lemma run_to_end_length: "length (threads (run_to_end f i s)) = length (threads s)"
  unfolding run_to_end_def
  by (rule funpow_step_inv [where P = "\<lambda>t. length (threads t) = length (threads s)"])
     (simp_all add: step_length)

lemma run_to_end_finished:
  "i < length (threads s) \<Longrightarrow> finished (threads (run_to_end f i s) ! i)"
  by (simp add: run_to_end_def funpow_finished)

lemma step_keeps_finished:
  "finished (threads s ! j) \<Longrightarrow> finished (threads (step f i s) ! j)"
  by (cases "j = i") (simp_all add: step_finished step_other)

lemma run_to_end_keeps_finished:
  "finished (threads s ! j) \<Longrightarrow> finished (threads (run_to_end f i s) ! j)"
  unfolding run_to_end_def
  by (rule funpow_step_inv [where P = "\<lambda>t. finished (threads t ! j)"])
     (simp_all add: step_keeps_finished)

lemma fold_run_to_end_finished:
  "m \<le> length (threads s) \<Longrightarrow>
     length (threads (fold (run_to_end f) [0..<m] s)) = length (threads s) \<and>
     (\<forall>j<m. finished (threads (fold (run_to_end f) [0..<m] s) ! j))"
proof (induction m)
  case 0
  then show ?case by simp
next
  case (Suc m)
  let ?t = "fold (run_to_end f) [0..<m] s"
  from Suc have len: "length (threads ?t) = length (threads s)"
    and fin: "\<forall>j<m. finished (threads ?t ! j)" by simp_all
  have "finished (threads (run_to_end f m ?t) ! j)" if "j < Suc m" for j
  proof (cases "j = m")
    case True
    then show ?thesis using Suc.prems len by (simp add: run_to_end_finished)
  next
    case False
    then show ?thesis using that fin by (simp add: run_to_end_keeps_finished)
  qed
  then show ?case by (simp add: run_to_end_length len)
qed

lemma join_threads_length: "length (threads (join_threads f s)) = length (threads s)"
  using fold_run_to_end_finished [of "length (threads s)" s f] by (simp add: join_threads_def)

lemma join_threads_finished:
  "pc \<in> set (threads (join_threads f s)) \<Longrightarrow> finished pc"
  using fold_run_to_end_finished [of "length (threads s)" s f]
  by (auto simp: join_threads_def in_set_conv_nth)

section \<open>Counting the records\<close>

lemma sum_list_map_update:
  fixes h :: "'a \<Rightarrow> nat"
  shows "i < length xs \<Longrightarrow>
    sum_list (map h (xs[i := y])) + h (xs ! i) = sum_list (map h xs) + h y"
  by (induction xs arbitrary: i) (auto split: nat.splits)

lemma owed_loop_head: "owed g (loop_head m) = m"
  by (cases m) simp_all

lemma worker_step_owed_le:
  "worker_step f g pc w q = (pc', w', q') \<Longrightarrow> num_threads g \<noteq> 0
     \<Longrightarrow> length q' + owed g pc' \<le> length q + owed g pc"
  by (cases pc)
     (auto simp: py_floordiv_def owed_loop_head split: sum.splits prod.splits if_splits)

lemma worker_step_owed_eq:
  "worker_step f g pc w q = (pc', w', q') \<Longrightarrow> num_threads g \<noteq> 0 \<Longrightarrow> \<not> is_raised pc'
     \<Longrightarrow> length q' + owed g pc' = length q + owed g pc"
  by (cases pc)
     (auto simp: py_floordiv_def owed_loop_head split: sum.splits prod.splits if_splits)

lemma worker_step_raised:
  "worker_step f g pc w q = (pc', w', q') \<Longrightarrow> is_raised pc \<Longrightarrow> is_raised pc'"
  by (cases pc) auto

lemma count_inv_spawn: "count_inv g (spawn g w)"
  by (simp add: count_inv_def spawn_def expected_length_def sum_list_replicate)

lemma count_inv_step:
  assumes "count_inv g s"
  shows "count_inv g (step f i s)"
proof (cases "i < length (threads s)")
  case False
  then show ?thesis using assms by (simp add: step_out_of_range)
next
  case True
  obtain pc' w' q' where
    ws: "worker_step f (self s) (threads s ! i) (world s) (data_queue s) = (pc', w', q')"
    and st: "step f i s = s\<lparr>world := w', data_queue := q', threads := (threads s)[i := pc']\<rparr>"
    using True by (rule step_unfold)
  from assms have g: "self s = g" and len: "length (threads s) = nat (num_threads g)"
    and le: "length (data_queue s) + sum_list (map (owed g) (threads s)) \<le> expected_length g"
    and eq: "(\<forall>j<length (threads s). \<not> is_raised (threads s ! j)) \<Longrightarrow>
        length (data_queue s) + sum_list (map (owed g) (threads s)) = expected_length g"
    by (simp_all add: count_inv_def)
  from True len have k: "num_threads g \<noteq> 0" by auto
  have upd: "sum_list (map (owed g) ((threads s)[i := pc'])) + owed g (threads s ! i)
      = sum_list (map (owed g) (threads s)) + owed g pc'"
    using True by (rule sum_list_map_update)
  have le': "length q' + owed g pc' \<le> length (data_queue s) + owed g (threads s ! i)"
    using ws k unfolding g by (rule worker_step_owed_le)
  have A: "length q' + sum_list (map (owed g) ((threads s)[i := pc'])) \<le> expected_length g"
    using upd le' le by linarith
  have B: "length q' + sum_list (map (owed g) ((threads s)[i := pc'])) = expected_length g"
    if nr: "\<forall>j<length (threads s). \<not> is_raised ((threads s)[i := pc'] ! j)"
  proof -
    from nr True have npc': "\<not> is_raised pc'" by auto
    have "\<not> is_raised (threads s ! j)" if "j < length (threads s)" for j
    proof (cases "j = i")
      case True
      then show ?thesis using npc' worker_step_raised [OF ws] by auto
    next
      case False
      then show ?thesis using nr that by auto
    qed
    then have e: "length (data_queue s) + sum_list (map (owed g) (threads s)) = expected_length g"
      using eq by simp
    have "length q' + owed g pc' = length (data_queue s) + owed g (threads s ! i)"
      using ws k npc' unfolding g by (rule worker_step_owed_eq)
    with upd e show ?thesis by linarith
  qed
  show ?thesis
    unfolding count_inv_def st using g len A B by simp
qed

lemma count_inv_final:
  "count_inv g (join_threads f (fold (step f) sched (spawn g w)))"
  using count_inv_step count_inv_spawn by (rule pipeline_inv)

section \<open>The record factory of the repository\<close>

lemma valid_make_record:
  "valid_record (make_record n a c s)
     \<longleftrightarrow> n \<in> set names \<and> age_ok a \<and> c \<in> set cities \<and> salary_ok s"
  by (simp add: valid_record_def make_record_def fieldnames_def)

lemma generate_name_result:
  obtains v w' where "generate_name w = Inr (v, w')" "v \<in> set names"
    "source w' = source w" "pos w' = Suc (pos w)"
proof -
  have "names ! (source w (pos w) mod length names) \<in> set names"
    by (rule nth_mem) (simp add: names_def)
  then show ?thesis
    using that [of "names ! (source w (pos w) mod length names)" "w\<lparr>pos := Suc (pos w)\<rparr>"]
    by (simp add: generate_name_def choice_def getrand_def names_def)
qed

lemma generate_city_result:
  obtains v w' where "generate_city w = Inr (v, w')" "v \<in> set cities"
    "source w' = source w" "pos w' = Suc (pos w)"
proof -
  have "cities ! (source w (pos w) mod length cities) \<in> set cities"
    by (rule nth_mem) (simp add: cities_def)
  then show ?thesis
    using that [of "cities ! (source w (pos w) mod length cities)" "w\<lparr>pos := Suc (pos w)\<rparr>"]
    by (simp add: generate_city_def choice_def getrand_def cities_def)
qed

lemma randint_result:
  assumes "a \<le> b"
  obtains x w' where "randint a b w = Inr (PyInt x, w')" "a \<le> x" "x \<le> b"
    "source w' = source w" "pos w' = Suc (pos w)"
proof -
  let ?r = "source w (pos w) mod nat (b - a + 1)"
  have "?r < nat (b - a + 1)" using assms by simp
  then have "a + int ?r \<le> b" using assms by linarith
  then show ?thesis
    using that [of "a + int ?r" "w\<lparr>pos := Suc (pos w)\<rparr>"] assms
    by (simp add: randint_def getrand_def)
qed

lemma age_result:
  obtains v w' where "randint 20 50 w = Inr (v, w')" "age_ok v"
    "source w' = source w" "pos w' = Suc (pos w)"
proof -
  obtain x w' where "randint 20 50 w = Inr (PyInt x, w')" "20 \<le> x" "x \<le> 50"
    "source w' = source w" "pos w' = Suc (pos w)"
    using randint_result [of 20 50 w] by auto
  then show ?thesis using that [of "PyInt x" w'] by (simp add: age_ok_def)
qed

lemma salary_result:
  obtains v w' where "randint 30000 100000 w = Inr (v, w')" "salary_ok v"
    "source w' = source w" "pos w' = Suc (pos w)"
proof -
  obtain x w' where "randint 30000 100000 w = Inr (PyInt x, w')" "30000 \<le> x" "x \<le> 100000"
    "source w' = source w" "pos w' = Suc (pos w)"
    using randint_result [of 30000 100000 w] by auto
  then show ?thesis using that [of "PyInt x" w'] by (simp add: salary_ok_def)
qed

lemma loop_head_facts:
  "\<not> is_raised (loop_head m)" "pc_ok (loop_head m)" "drawn (loop_head m) = 0"
  by (cases m; simp)+

lemma worker_step_source:
  assumes ws: "worker_step source_factory g pc w q = (pc', w', q')"
    and k: "num_threads g \<noteq> 0"
    and pc: "\<not> is_raised pc" "pc_ok pc"
    and q: "\<forall>r \<in> set q. valid_record r"
  shows "\<not> is_raised pc' \<and> pc_ok pc' \<and> (\<forall>r \<in> set q'. valid_record r) \<and>
         source w' = source w \<and>
         pos w' + 4 * length q + drawn pc = pos w + 4 * length q' + drawn pc'"
proof (cases pc)
  case Enter
  then show ?thesis using ws k q by (auto simp: py_floordiv_def loop_head_facts)
next
  case (DrawName m)
  obtain v w1 where "generate_name w = Inr (v, w1)" "v \<in> set names"
    "source w1 = source w" "pos w1 = Suc (pos w)" by (rule generate_name_result)
  then show ?thesis using ws q DrawName by (auto simp: source_factory_def)
next
  case (DrawAge m n)
  obtain v w1 where "randint 20 50 w = Inr (v, w1)" "age_ok v"
    "source w1 = source w" "pos w1 = Suc (pos w)" by (rule age_result)
  then show ?thesis using ws q pc DrawAge by (auto simp: source_factory_def)
next
  case (DrawCity m n a)
  obtain v w1 where "generate_city w = Inr (v, w1)" "v \<in> set cities"
    "source w1 = source w" "pos w1 = Suc (pos w)" by (rule generate_city_result)
  then show ?thesis using ws q pc DrawCity by (auto simp: source_factory_def)
next
  case (DrawSalary m n a c)
  obtain v w1 where "randint 30000 100000 w = Inr (v, w1)" "salary_ok v"
    "source w1 = source w" "pos w1 = Suc (pos w)" by (rule salary_result)
  then show ?thesis using ws q pc DrawSalary
    by (auto simp: source_factory_def valid_make_record)
next
  case (Put m d)
  then show ?thesis using ws q pc by (auto simp: loop_head_facts)
next
  case Returned
  then show ?thesis using ws q by auto
next
  case (Raised e)
  then show ?thesis using pc by simp
qed

lemma src_inv_spawn: "src_inv g w (spawn g w)"
  by (simp add: src_inv_def spawn_def sum_list_replicate)

lemma src_inv_step:
  assumes "src_inv g w0 s"
  shows "src_inv g w0 (step source_factory i s)"
proof (cases "i < length (threads s)")
  case False
  then show ?thesis using assms by (simp add: step_out_of_range)
next
  case True
  obtain pc' w' q' where
    ws: "worker_step source_factory (self s) (threads s ! i) (world s) (data_queue s)
           = (pc', w', q')"
    and st: "step source_factory i s
           = s\<lparr>world := w', data_queue := q', threads := (threads s)[i := pc']\<rparr>"
    using True by (rule step_unfold)
  from assms have g: "self s = g" and len: "length (threads s) = nat (num_threads g)"
    and ths: "\<forall>pc \<in> set (threads s). \<not> is_raised pc \<and> pc_ok pc"
    and qs: "\<forall>r \<in> set (data_queue s). valid_record r"
    and src: "source (world s) = source w0"
    and ps: "pos (world s) = pos w0 + 4 * length (data_queue s) + sum_list (map drawn (threads s))"
    by (simp_all add: src_inv_def)
  from True len have k: "num_threads (self s) \<noteq> 0" unfolding g by auto
  from True ths have pci: "\<not> is_raised (threads s ! i)" "pc_ok (threads s ! i)" by simp_all
  from worker_step_source [OF ws k pci qs]
  have r1: "\<not> is_raised pc'" "pc_ok pc'" and r2: "\<forall>r \<in> set q'. valid_record r"
    and r3: "source w' = source (world s)"
    and r4: "pos w' + 4 * length (data_queue s) + drawn (threads s ! i)
               = pos (world s) + 4 * length q' + drawn pc'"
    by simp_all
  have upd: "sum_list (map drawn ((threads s)[i := pc'])) + drawn (threads s ! i)
      = sum_list (map drawn (threads s)) + drawn pc'"
    using True by (rule sum_list_map_update)
  have ths': "\<forall>pc \<in> set ((threads s)[i := pc']). \<not> is_raised pc \<and> pc_ok pc"
    using ths r1 set_update_subset_insert [of "threads s" i pc'] by auto
  have ps': "pos w' = pos w0 + 4 * length q' + sum_list (map drawn ((threads s)[i := pc']))"
    using r4 ps upd by linarith
  show ?thesis
    unfolding src_inv_def st using g len ths' r2 r3 src ps' by simp
qed

lemma src_inv_final:
  "src_inv g w (join_threads source_factory (fold (step source_factory) sched (spawn g w)))"
  using src_inv_step src_inv_spawn by (rule pipeline_inv)

section \<open>The state after the join\<close>

lemma outcome_final:
  "returned (generate_data_with f g sched w) = Inr (data_queue (final f g sched w))"
  "workers (generate_data_with f g sched w) = threads (final f g sched w)"
  "self_after (generate_data_with f g sched w) = self (final f g sched w)"
  "world_after (generate_data_with f g sched w) = world (final f g sched w)"
  by (simp_all add: generate_data_with_def final_def Let_def drain_append)

lemma final_count_inv: "count_inv g (final f g sched w)"
  unfolding final_def by (rule count_inv_final)

lemma final_src_inv: "src_inv g w (final source_factory g sched w)"
  unfolding final_def by (rule src_inv_final)

lemma final_finished: "pc \<in> set (threads (final f g sched w)) \<Longrightarrow> finished pc"
  unfolding final_def by (rule join_threads_finished)

lemma finished_not_raised: "finished pc \<Longrightarrow> \<not> is_raised pc \<Longrightarrow> pc = Returned"
  by (cases pc) simp_all



lemma final_source_threads:
  "threads (final source_factory g sched w) = replicate (nat (num_threads g)) Returned"
proof -
  let ?t = "threads (final source_factory g sched w)"
  have "pc = Returned" if "pc \<in> set ?t" for pc
    using that final_src_inv [of g w sched] final_finished [of pc source_factory g sched w]
    by (simp add: src_inv_def finished_not_raised)
  then have "replicate (length ?t) Returned = ?t"
    by (simp add: replicate_length_same)
  moreover have "length ?t = nat (num_threads g)"
    using final_src_inv [of g w sched] by (simp add: src_inv_def)
  ultimately show ?thesis by simp
qed

lemma final_source_length:
  "length (data_queue (final source_factory g sched w)) = expected_length g"
  using final_count_inv [of g source_factory sched w]
  by (simp add: count_inv_def final_source_threads sum_list_replicate)

lemma final_source_valid:
  "r \<in> set (data_queue (final source_factory g sched w)) \<Longrightarrow> valid_record r"
  using final_src_inv [of g w sched] by (simp add: src_inv_def)

lemma final_source_world:
  "source (world (final source_factory g sched w)) = source w"
  "pos (world (final source_factory g sched w))
     = pos w + 4 * length (data_queue (final source_factory g sched w))"
  using final_src_inv [of g w sched]
  by (simp_all add: src_inv_def final_source_threads sum_list_replicate)

lemma final_self: "self (final f g sched w) = g"
  using final_count_inv [of g f sched w] by (simp add: count_inv_def)

lemma final_threads_length: "length (threads (final f g sched w)) = nat (num_threads g)"
  using final_count_inv [of g f sched w] by (simp add: count_inv_def)

lemma valid_recordD:
  assumes "valid_record r"
  obtains n a c s where
    "r = [(''name'', n), (''age'', PyInt a), (''city'', c), (''salary'', PyInt s)]"
    "n \<in> set names" "20 \<le> a" "a \<le> 50" "c \<in> set cities" "30000 \<le> s" "s \<le> 100000"
proof -
  from assms have keys: "map fst r = [''name'', ''age'', ''city'', ''salary'']"
    by (simp add: valid_record_def fieldnames_def)
  then obtain n a c s where r: "r = [(''name'', n), (''age'', a), (''city'', c), (''salary'', s)]"
    by (auto simp: map_eq_Cons_conv)
  from assms have "n \<in> set names" "age_ok a" "c \<in> set cities" "salary_ok s"
    unfolding r by (simp_all add: valid_record_def)
  then show ?thesis
    using that r by (cases a; cases s) (auto simp: age_ok_def salary_ok_def)
qed

section \<open>The join as a schedule, and the trace of the puts\<close>

lemma fold_replicate_step: "fold (step f) (replicate n i) s = (step f i ^^ n) s"
proof (induction n arbitrary: s)
  case 0
  show ?case by simp
next
  case (Suc n)
  have "fold (step f) (replicate (Suc n) i) s = fold (step f) (replicate n i) (step f i s)"
    by simp
  also have "\<dots> = (step f i ^^ n) (step f i s)" by (rule Suc.IH)
  also have "\<dots> = (step f i ^^ Suc n) s" by (simp only: funpow_Suc_right o_apply)
  finally show ?case .
qed

lemma run_to_end_other:
  "j \<noteq> i \<Longrightarrow> threads (run_to_end f i s) ! j = threads s ! j"
  unfolding run_to_end_def
  by (rule funpow_step_inv [where P = "\<lambda>t. threads t ! j = threads s ! j"])
     (simp_all add: step_other)

lemma run_to_end_self: "self (run_to_end f i s) = self s"
  unfolding run_to_end_def
  by (rule funpow_step_inv [where P = "\<lambda>t. self t = self s"]) (simp_all add: step_self)

lemma fold_run_to_end_schedule:
  "distinct xs \<Longrightarrow> self t = self s \<Longrightarrow> \<forall>i \<in> set xs. threads t ! i = threads s ! i \<Longrightarrow>
     fold (run_to_end f) xs t =
     fold (step f) (concat (map (\<lambda>i. replicate (steps_left (self s) (threads s ! i)) i) xs)) t"
proof (induction xs arbitrary: t)
  case Nil
  show ?case by simp
next
  case (Cons x xs)
  let ?t = "run_to_end f x t"
  have first: "?t = fold (step f) (replicate (steps_left (self s) (threads s ! x)) x) t"
    using Cons.prems by (simp add: run_to_end_def fold_replicate_step)
  have "\<forall>i \<in> set xs. threads ?t ! i = threads s ! i"
  proof
    fix i assume "i \<in> set xs"
    with Cons.prems have "i \<noteq> x" "threads t ! i = threads s ! i" by auto
    then show "threads ?t ! i = threads s ! i" by (simp add: run_to_end_other)
  qed
  moreover have "self ?t = self s" using Cons.prems by (simp add: run_to_end_self)
  moreover have "distinct xs" using Cons.prems by simp
  ultimately have "fold (run_to_end f) xs ?t =
     fold (step f) (concat (map (\<lambda>i. replicate (steps_left (self s) (threads s ! i)) i) xs)) ?t"
    by (intro Cons.IH)
  then show ?case by (simp add: first)
qed

lemma join_threads_schedule: "join_threads f s = fold (step f) (completion s) s"
  unfolding join_threads_def completion_def
  by (rule fold_run_to_end_schedule) simp_all

lemma final_whole_schedule:
  "final f g sched w = fold (step f) (whole_schedule f g sched w) (spawn g w)"
  by (simp add: final_def whole_schedule_def join_threads_schedule)

lemma worker_step_puts:
  "worker_step f g pc w q = (pc', w', q') \<Longrightarrow> q' = q @ map snd (puts_of i pc)"
  by (cases pc) (auto split: sum.splits prod.splits)

lemma step_puts:
  "data_queue (step f i s) =
     data_queue s @ map snd (if i < length (threads s) then puts_of i (threads s ! i) else [])"
proof (cases "i < length (threads s)")
  case False
  then show ?thesis by (simp add: step_out_of_range)
next
  case True
  obtain pc' w' q' where
    ws: "worker_step f (self s) (threads s ! i) (world s) (data_queue s) = (pc', w', q')"
    and st: "step f i s = s\<lparr>world := w', data_queue := q', threads := (threads s)[i := pc']\<rparr>"
    using True by (rule step_unfold)
  show ?thesis using worker_step_puts [OF ws, of i] True by (simp add: st)
qed

lemma queue_put_trace:
  "data_queue (fold (step f) sched s) = data_queue s @ map snd (put_trace f sched s)"
proof (induction sched arbitrary: s)
  case Nil
  show ?case by simp
next
  case (Cons i sched)
  show ?case by (simp add: Cons.IH step_puts)
qed

lemma final_put_trace:
  "data_queue (final f g sched w)
     = map snd (put_trace f (whole_schedule f g sched w) (spawn g w))"
  by (simp add: final_whole_schedule queue_put_trace) (simp add: spawn_def)

lemma put_trace_workers:
  "p \<in> set (put_trace f sched s) \<Longrightarrow> fst p < length (threads s)"
proof (induction sched arbitrary: s)
  case Nil
  then show ?case by simp
next
  case (Cons i sched)
  show ?case
  proof (cases "p \<in> set (put_trace f sched (step f i s))")
    case True
    then show ?thesis using Cons.IH [of "step f i s"] by (simp add: step_length)
  next
    case False
    with Cons.prems have "i < length (threads s)" "p \<in> set (puts_of i (threads s ! i))"
      by (auto split: if_splits)
    then show ?thesis by (cases "threads s ! i") simp_all
  qed
qed

lemma puts_by_append: "puts_by j (xs @ ys) = puts_by j xs + puts_by j ys"
  by (simp add: puts_by_def)

lemma puts_by_Nil: "puts_by j [] = 0"
  by (simp add: puts_by_def)

lemma puts_by_puts_of:
  "puts_by j (puts_of i pc) = (if j = i then length (puts_of i pc) else 0)"
  by (cases pc) (simp_all add: puts_by_def)

lemma worker_step_puts_owed:
  assumes "worker_step f g pc w q = (pc', w', q')" and "num_threads g \<noteq> 0"
    and "\<not> is_raised pc'"
  shows "length (puts_of i pc) + owed g pc' = owed g pc"
proof -
  have "length q' + owed g pc' = length q + owed g pc"
    using assms by (rule worker_step_owed_eq)
  moreover have "q' = q @ map snd (puts_of i pc)"
    using assms(1) by (rule worker_step_puts)
  ultimately show ?thesis by simp
qed

lemma source_puts_by:
  "src_inv g w0 s \<Longrightarrow> j < length (threads s) \<Longrightarrow>
     puts_by j (put_trace source_factory sched s)
       + owed g (threads (fold (step source_factory) sched s) ! j)
     = owed g (threads s ! j)"
proof (induction sched arbitrary: s)
  case Nil
  show ?case by (simp add: puts_by_Nil)
next
  case (Cons i sched)
  let ?s' = "step source_factory i s"
  have inv': "src_inv g w0 ?s'" using Cons.prems(1) by (rule src_inv_step)
  have j': "j < length (threads ?s')" using Cons.prems(2) by (simp add: step_length)
  have IH: "puts_by j (put_trace source_factory sched ?s')
       + owed g (threads (fold (step source_factory) sched ?s') ! j) = owed g (threads ?s' ! j)"
    using inv' j' by (rule Cons.IH)
  have one: "puts_by j (if i < length (threads s) then puts_of i (threads s ! i) else [])
       + owed g (threads ?s' ! j) = owed g (threads s ! j)"
  proof (cases "i = j")
    case False
    then show ?thesis by (simp add: puts_by_puts_of puts_by_Nil step_other)
  next
    case True
    obtain pc' w' q' where
      ws: "worker_step source_factory (self s) (threads s ! i) (world s) (data_queue s)
             = (pc', w', q')"
      and st: "?s' = s\<lparr>world := w', data_queue := q', threads := (threads s)[i := pc']\<rparr>"
      using Cons.prems(2) True by (auto intro: step_unfold)
    from Cons.prems have g: "self s = g" and len: "length (threads s) = nat (num_threads g)"
      by (simp_all add: src_inv_def)
    from Cons.prems(2) len have k: "num_threads (self s) \<noteq> 0" unfolding g by auto
    have "i < length (threads s)" using Cons.prems(2) True by simp
    then have "pc' \<in> set (threads ?s')" unfolding st by (simp add: set_update_memI)
    with inv' have nr: "\<not> is_raised pc'" by (simp add: src_inv_def)
    have "length (puts_of i (threads s ! i)) + owed (self s) pc' = owed (self s) (threads s ! i)"
      using ws k nr by (rule worker_step_puts_owed)
    then show ?thesis
      unfolding st using True \<open>i < length (threads s)\<close> by (simp add: puts_by_puts_of g)
  qed
  show ?case using IH one by (simp add: puts_by_append)
qed

lemma final_source_puts_by:
  assumes "j < nat (num_threads g)"
  shows "puts_by j (put_trace source_factory (whole_schedule source_factory g sched w) (spawn g w))
           = nat (num_records g div num_threads g)"
proof -
  have "src_inv g w (spawn g w)" by (rule src_inv_spawn)
  moreover have "j < length (threads (spawn g w))" using assms by (simp add: spawn_def)
  ultimately have "puts_by j (put_trace source_factory (whole_schedule source_factory g sched w)
        (spawn g w))
       + owed g (threads (fold (step source_factory) (whole_schedule source_factory g sched w)
            (spawn g w)) ! j)
     = owed g (threads (spawn g w) ! j)"
    by (rule source_puts_by)
  then show ?thesis
    using assms
    by (simp add: final_whole_schedule [symmetric] final_source_threads) (simp add: spawn_def)
qed

section \<open>Every field is a draw from the shared source\<close>

lemma source_ops:
  "gen_name source_factory w = Inr (name_at (source w) (pos w), w\<lparr>pos := Suc (pos w)\<rparr>)"
  "gen_age source_factory w = Inr (age_at (source w) (pos w), w\<lparr>pos := Suc (pos w)\<rparr>)"
  "gen_city source_factory w = Inr (city_at (source w) (pos w), w\<lparr>pos := Suc (pos w)\<rparr>)"
  "gen_salary source_factory w = Inr (salary_at (source w) (pos w), w\<lparr>pos := Suc (pos w)\<rparr>)"
  by (simp_all add: source_factory_def generate_name_def generate_city_def choice_def
      randint_def getrand_def name_at_def age_at_def city_at_def salary_at_def names_def
      cities_def)

lemma from_sourceI:
  assumes "lo \<le> p1" "p1 < p2" "p2 < p3" "p3 < p4" "p4 < hi"
  shows "from_source src lo hi
           (make_record (name_at src p1) (age_at src p2) (city_at src p3) (salary_at src p4))"
  unfolding from_source_def
  by (rule bexI [where x = p1], rule bexI [where x = p2], rule bexI [where x = p3],
      rule bexI [where x = p4]) (use assms in auto)

lemma from_sourceE:
  assumes "from_source src lo hi r"
  obtains p1 p2 p3 p4 where "lo \<le> p1" "p1 < p2" "p2 < p3" "p3 < p4" "p4 < hi"
    "r = make_record (name_at src p1) (age_at src p2) (city_at src p3) (salary_at src p4)"
  using assms unfolding from_source_def by auto

lemma from_source_mono:
  assumes "hi \<le> hi'" and "from_source src lo hi r"
  shows "from_source src lo hi' r"
proof -
  from assms(2) obtain p1 p2 p3 p4 where "lo \<le> p1" "p1 < p2" "p2 < p3" "p3 < p4" "p4 < hi"
    and r: "r = make_record (name_at src p1) (age_at src p2) (city_at src p3) (salary_at src p4)"
    by (rule from_sourceE)
  then have "from_source src lo hi'
      (make_record (name_at src p1) (age_at src p2) (city_at src p3) (salary_at src p4))"
    using assms(1) by (intro from_sourceI) auto
  then show ?thesis by (simp only: r)
qed

lemma pc_from_DrawAgeI:
  "lo \<le> p1 \<Longrightarrow> p1 < hi \<Longrightarrow> pc_from src lo hi (DrawAge m (name_at src p1))"
  by auto

lemma pc_from_DrawCityI:
  assumes "lo \<le> p1" "p1 < p2" "p2 < hi"
  shows "pc_from src lo hi (DrawCity m (name_at src p1) (age_at src p2))"
  unfolding pc_from.simps
  by (rule bexI [where x = p1], rule bexI [where x = p2]) (use assms in auto)

lemma pc_from_DrawSalaryI:
  assumes "lo \<le> p1" "p1 < p2" "p2 < p3" "p3 < hi"
  shows "pc_from src lo hi (DrawSalary m (name_at src p1) (age_at src p2) (city_at src p3))"
  unfolding pc_from.simps
  by (rule bexI [where x = p1], rule bexI [where x = p2], rule bexI [where x = p3])
     (use assms in auto)

lemma pc_from_mono:
  assumes "hi \<le> hi'" and "pc_from src lo hi pc"
  shows "pc_from src lo hi' pc"
proof (cases pc)
  case (DrawAge m n)
  with assms(2) obtain p1 where p: "lo \<le> p1" "p1 < hi" and n: "n = name_at src p1" by auto
  have "pc_from src lo hi' (DrawAge m (name_at src p1))"
    by (rule pc_from_DrawAgeI) (use p assms(1) in auto)
  then show ?thesis by (simp only: DrawAge n)
next
  case (DrawCity m n a)
  with assms(2) obtain p1 p2 where p: "lo \<le> p1" "p1 < p2" "p2 < hi"
    and n: "n = name_at src p1" "a = age_at src p2" by auto
  have "pc_from src lo hi' (DrawCity m (name_at src p1) (age_at src p2))"
    by (rule pc_from_DrawCityI) (use p assms(1) in auto)
  then show ?thesis by (simp only: DrawCity n)
next
  case (DrawSalary m n a c)
  with assms(2) obtain p1 p2 p3 where p: "lo \<le> p1" "p1 < p2" "p2 < p3" "p3 < hi"
    and n: "n = name_at src p1" "a = age_at src p2" "c = city_at src p3" by auto
  have "pc_from src lo hi' (DrawSalary m (name_at src p1) (age_at src p2) (city_at src p3))"
    by (rule pc_from_DrawSalaryI) (use p assms(1) in auto)
  then show ?thesis by (simp only: DrawSalary n)
next
  case (Put m d)
  then show ?thesis using assms by (simp add: from_source_mono)
qed simp_all

lemma pc_from_loop_head: "pc_from src lo hi (loop_head m)"
  by (cases m) simp_all

lemma worker_step_from:
  assumes ws: "worker_step source_factory g pc w q = (pc', w', q')"
    and k: "num_threads g \<noteq> 0"
    and lo: "lo \<le> pos w"
    and pc: "pc_from (source w) lo (pos w) pc"
    and q: "\<forall>r \<in> set q. from_source (source w) lo (pos w) r"
  shows "pc_from (source w) lo (pos w') pc'"
    and "\<forall>r \<in> set q'. from_source (source w) lo (pos w') r"
    and "pos w \<le> pos w'"
proof -
  have q1: "\<forall>r \<in> set q. from_source (source w) lo (Suc (pos w)) r"
    using q from_source_mono [of "pos w" "Suc (pos w)" "source w" lo] by auto
  have "pc_from (source w) lo (pos w') pc' \<and>
        (\<forall>r \<in> set q'. from_source (source w) lo (pos w') r) \<and> pos w \<le> pos w'"
  proof (cases pc)
    case Enter
    then show ?thesis using ws k q by (auto simp: py_floordiv_def pc_from_loop_head)
  next
    case (DrawName m)
    then have *: "pc' = DrawAge m (name_at (source w) (pos w))" "pos w' = Suc (pos w)" "q' = q"
      using ws by (auto simp: source_ops)
    have "pc_from (source w) lo (Suc (pos w)) (DrawAge m (name_at (source w) (pos w)))"
      by (rule pc_from_DrawAgeI) (use lo in auto)
    then show ?thesis using q1 by (simp only: *) simp
  next
    case (DrawAge m n)
    then have *: "pc' = DrawCity m n (age_at (source w) (pos w))" "pos w' = Suc (pos w)" "q' = q"
      using ws by (auto simp: source_ops)
    obtain p1 where p: "lo \<le> p1" "p1 < pos w" and n: "n = name_at (source w) p1"
      using pc DrawAge by auto
    have "pc_from (source w) lo (Suc (pos w))
        (DrawCity m (name_at (source w) p1) (age_at (source w) (pos w)))"
      by (rule pc_from_DrawCityI) (use p in auto)
    then show ?thesis using q1 by (simp only: * n) simp
  next
    case (DrawCity m n a)
    then have *: "pc' = DrawSalary m n a (city_at (source w) (pos w))" "pos w' = Suc (pos w)"
      "q' = q"
      using ws by (auto simp: source_ops)
    obtain p1 p2 where p: "lo \<le> p1" "p1 < p2" "p2 < pos w"
      and n: "n = name_at (source w) p1" "a = age_at (source w) p2"
      using pc DrawCity by auto
    have "pc_from (source w) lo (Suc (pos w))
        (DrawSalary m (name_at (source w) p1) (age_at (source w) p2)
           (city_at (source w) (pos w)))"
      by (rule pc_from_DrawSalaryI) (use p in auto)
    then show ?thesis using q1 by (simp only: * n) simp
  next
    case (DrawSalary m n a c)
    then have *: "pc' = Put m (make_record n a c (salary_at (source w) (pos w)))"
      "pos w' = Suc (pos w)" "q' = q"
      using ws by (auto simp: source_ops)
    obtain p1 p2 p3 where p: "lo \<le> p1" "p1 < p2" "p2 < p3" "p3 < pos w"
      and n: "n = name_at (source w) p1" "a = age_at (source w) p2" "c = city_at (source w) p3"
      using pc DrawSalary by auto
    have "from_source (source w) lo (Suc (pos w))
        (make_record (name_at (source w) p1) (age_at (source w) p2) (city_at (source w) p3)
           (salary_at (source w) (pos w)))"
      by (rule from_sourceI) (use p in auto)
    then show ?thesis using q1 by (simp only: * n) simp
  next
    case (Put m d)
    then show ?thesis using ws pc q by (auto simp: pc_from_loop_head)
  next
    case Returned
    then show ?thesis using ws q by auto
  next
    case (Raised e)
    then show ?thesis using ws q by auto
  qed
  then show "pc_from (source w) lo (pos w') pc'"
    and "\<forall>r \<in> set q'. from_source (source w) lo (pos w') r"
    and "pos w \<le> pos w'" by simp_all
qed

lemma from_inv_spawn: "from_inv g w (spawn g w)"
  using src_inv_spawn [of g w] by (simp add: from_inv_def) (simp add: spawn_def)

lemma from_inv_step:
  assumes "from_inv g w0 s"
  shows "from_inv g w0 (step source_factory i s)"
proof (cases "i < length (threads s)")
  case False
  then show ?thesis using assms by (simp add: step_out_of_range)
next
  case True
  obtain pc' w' q' where
    ws: "worker_step source_factory (self s) (threads s ! i) (world s) (data_queue s)
           = (pc', w', q')"
    and st: "step source_factory i s
           = s\<lparr>world := w', data_queue := q', threads := (threads s)[i := pc']\<rparr>"
    using True by (rule step_unfold)
  from assms have src: "src_inv g w0 s"
    and ths: "\<forall>pc \<in> set (threads s). pc_from (source w0) (pos w0) (pos (world s)) pc"
    and qs: "\<forall>r \<in> set (data_queue s). from_source (source w0) (pos w0) (pos (world s)) r"
    by (simp_all add: from_inv_def)
  from src have g: "self s = g" and len: "length (threads s) = nat (num_threads g)"
    and srcw: "source (world s) = source w0" and lo: "pos w0 \<le> pos (world s)"
    by (simp_all add: src_inv_def)
  from True len have k: "num_threads (self s) \<noteq> 0" unfolding g by auto
  have pci: "pc_from (source (world s)) (pos w0) (pos (world s)) (threads s ! i)"
    using ths True by (simp add: srcw)
  have qs': "\<forall>r \<in> set (data_queue s). from_source (source (world s)) (pos w0) (pos (world s)) r"
    using qs by (simp add: srcw)
  have r1: "pc_from (source w0) (pos w0) (pos w') pc'"
    and r2: "\<forall>r \<in> set q'. from_source (source w0) (pos w0) (pos w') r"
    and r3: "pos (world s) \<le> pos w'"
    using worker_step_from [OF ws k lo pci qs'] by (simp_all add: srcw)
  have "pc_from (source w0) (pos w0) (pos w') pc" if "pc \<in> set ((threads s)[i := pc'])" for pc
  proof -
    from that have "pc = pc' \<or> pc \<in> set (threads s)"
      using set_update_subset_insert [of "threads s" i pc'] by auto
    then show ?thesis using r1 ths r3 pc_from_mono by blast
  qed
  moreover have "src_inv g w0 (s\<lparr>world := w', data_queue := q', threads := (threads s)[i := pc']\<rparr>)"
    using src_inv_step [OF src, of i] by (simp add: st)
  ultimately show ?thesis
    unfolding from_inv_def st using r2 by simp
qed

lemma final_from_inv: "from_inv g w (final source_factory g sched w)"
  unfolding final_def using from_inv_step from_inv_spawn by (rule pipeline_inv)

lemma final_source_from:
  "r \<in> set (data_queue (final source_factory g sched w)) \<Longrightarrow>
     from_source (source w) (pos w)
       (pos w + 4 * length (data_queue (final source_factory g sched w))) r"
  using final_from_inv [of g w sched] final_source_world(2) [of g sched w]
  by (simp add: from_inv_def)

section \<open>Runs that keep the draws of a record together\<close>

lemma sum_list_map_update_gen:
  fixes h :: "'a \<Rightarrow> 'b::comm_monoid_add"
  shows "i < length xs \<Longrightarrow>
    sum_list (map h (xs[i := y])) + h (xs ! i) = sum_list (map h xs) + h y"
proof (induction xs arbitrary: i)
  case Nil
  then show ?case by simp
next
  case (Cons x xs)
  show ?case
  proof (cases i)
    case 0
    then show ?thesis by (simp add: ac_simps)
  next
    case (Suc k)
    with Cons.prems have "k < length xs" by simp
    then have "sum_list (map h (xs[k := y])) + h (xs ! k) = sum_list (map h xs) + h y"
      by (rule Cons.IH)
    then show ?thesis using Suc by (simp add: add.assoc)
  qed
qed

lemma drawn_split: "drawn pc = 4 * built pc + part_drawn pc"
  by (cases pc) simp_all

lemma sum_drawn_split:
  "sum_list (map drawn xs) = 4 * sum_list (map built xs) + sum_list (map part_drawn xs)"
  by (induction xs) (simp_all add: drawn_split)

lemma part_drawn_not_mid: "\<not> mid_record pc \<Longrightarrow> part_drawn pc = 0"
  by (cases pc) simp_all

lemma partial_ok_not_mid: "\<not> mid_record pc \<Longrightarrow> partial_ok src b pc"
  by (cases pc) simp_all

lemma sum_part_drawn_quiet:
  "\<forall>pc \<in> set xs. \<not> mid_record pc \<Longrightarrow> sum_list (map part_drawn xs) = 0"
  by (induction xs) (simp_all add: part_drawn_not_mid)

lemma loop_head_atomic_facts:
  "built (loop_head m) = 0" "part_drawn (loop_head m) = 0" "pending (loop_head m) = {#}"
  "\<not> mid_record (loop_head m)" "partial_ok src b (loop_head m)"
  by (cases m; simp)+

lemma worker_step_atomic:
  assumes ws: "worker_step source_factory g pc w q = (pc', w', q')"
    and k: "num_threads g \<noteq> 0"
    and p: "pos w = b + part_drawn pc"
    and ok: "partial_ok (source w) b pc"
    and nr: "\<not> is_raised pc"
  shows "mset q' + pending pc' =
           mset q + pending pc + (if completes pc then {#record_from (source w) b#} else {#})"
    and "length q' + built pc' = length q + built pc + (if completes pc then 1 else 0)"
    and "partial_ok (source w) (if completes pc then b + 4 else b) pc'"
  using assms
  by (cases pc;
      auto simp: source_ops py_floordiv_def loop_head_atomic_facts record_from_def)+

lemma worker_step_no_draw:
  assumes ws: "worker_step source_factory g pc w q = (pc', w', q')"
    and k: "num_threads g \<noteq> 0"
    and nd: "\<not> is_draw pc"
  shows "mset q' + pending pc' = mset q + pending pc"
    and "length q' + built pc' = length q + built pc"
    and "part_drawn pc' = 0" and "part_drawn pc = 0"
    and "\<not> mid_record pc'"
  using assms
  by (cases pc; auto simp: py_floordiv_def loop_head_atomic_facts)+

lemma mid_record_is_draw: "mid_record pc \<Longrightarrow> is_draw pc"
  by (cases pc) simp_all

lemma atomic_inv_draw_step:
  assumes inv: "atomic_inv g w0 s" and und: "undisturbed i s"
  shows "atomic_inv g w0 (step source_factory i s)"
proof (cases "i < length (threads s)")
  case False
  then show ?thesis using inv by (simp add: step_out_of_range)
next
  case True
  let ?ths = "threads s" and ?q = "data_queue s" and ?pc = "threads s ! i"
  obtain pc' w' q' where
    ws: "worker_step source_factory (self s) ?pc (world s) ?q = (pc', w', q')"
    and st: "step source_factory i s = s\<lparr>world := w', data_queue := q', threads := ?ths[i := pc']\<rparr>"
    using True by (rule step_unfold)
  let ?ths' = "?ths[i := pc']"
  define c where "c = length ?q + sum_list (map built ?ths)"
  define c' where "c' = length q' + sum_list (map built ?ths')"
  define b where "b = pos w0 + 4 * c"
  from inv have src: "src_inv g w0 s"
    and ms: "mset ?q + sum_list (map pending ?ths) = mset (map (record_at w0) [0..<c])"
    and mid: "\<And>j. j < length ?ths \<Longrightarrow> mid_record (?ths ! j) \<Longrightarrow>
        sum_list (map part_drawn ?ths) = part_drawn (?ths ! j) \<and>
        partial_ok (source w0) b (?ths ! j)"
    by (simp_all add: atomic_inv_def c_def b_def)
  from src True have g: "self s = g" and len: "length ?ths = nat (num_threads g)"
    and nr: "\<not> is_raised ?pc" and srcw: "source (world s) = source w0"
    and ps: "pos (world s) = pos w0 + 4 * length ?q + sum_list (map drawn ?ths)"
    by (simp_all add: src_inv_def)
  from True len have k: "num_threads (self s) \<noteq> 0" unfolding g by auto
  have others: "\<not> mid_record (?ths ! j)" if "j < length ?ths" "j \<noteq> i" for j
    using und that by (simp add: undisturbed_def)
  have P: "sum_list (map part_drawn ?ths) = part_drawn ?pc"
  proof (cases "mid_record ?pc")
    case True
    with mid [OF \<open>i < length ?ths\<close>] show ?thesis by simp
  next
    case False
    have "\<not> mid_record pc" if "pc \<in> set ?ths" for pc
    proof -
      from that obtain j where "j < length ?ths" "pc = ?ths ! j"
        by (auto simp: in_set_conv_nth)
      then show ?thesis using others [of j] False by (cases "j = i") simp_all
    qed
    then have "sum_list (map part_drawn ?ths) = 0" by (simp add: sum_part_drawn_quiet)
    then show ?thesis using False by (simp add: part_drawn_not_mid)
  qed
  have okpc: "partial_ok (source (world s)) b ?pc"
  proof (cases "mid_record ?pc")
    case True
    with mid [OF \<open>i < length ?ths\<close>] show ?thesis by (simp add: srcw)
  next
    case False
    then show ?thesis by (rule partial_ok_not_mid)
  qed
  have pw: "pos (world s) = b + part_drawn ?pc"
    using ps P by (simp add: sum_drawn_split b_def c_def)
  have W1: "mset q' + pending pc' =
      mset ?q + pending ?pc + (if completes ?pc then {#record_from (source w0) b#} else {#})"
    and W2: "length q' + built pc' = length ?q + built ?pc + (if completes ?pc then 1 else 0)"
    and W3: "partial_ok (source w0) (if completes ?pc then b + 4 else b) pc'"
    using worker_step_atomic [OF ws k pw okpc nr] by (simp_all add: srcw)
  have U1: "sum_list (map built ?ths') + built ?pc = sum_list (map built ?ths) + built pc'"
    using True by (rule sum_list_map_update_gen)
  have U2: "sum_list (map part_drawn ?ths') + part_drawn ?pc
      = sum_list (map part_drawn ?ths) + part_drawn pc'"
    using True by (rule sum_list_map_update_gen)
  have U3: "sum_list (map pending ?ths') + pending ?pc = sum_list (map pending ?ths) + pending pc'"
    using True by (rule sum_list_map_update_gen)
  have cc: "c' = c + (if completes ?pc then 1 else 0)"
    using W2 U1 unfolding c_def c'_def by (cases "completes ?pc") simp_all
  have "mset q' + sum_list (map pending ?ths') + pending ?pc
      = mset q' + pending pc' + sum_list (map pending ?ths)"
    using U3 by (simp add: ac_simps)
  also have "\<dots> = mset ?q + sum_list (map pending ?ths)
      + (if completes ?pc then {#record_from (source w0) b#} else {#}) + pending ?pc"
    unfolding W1 by (simp add: ac_simps)
  finally have "mset q' + sum_list (map pending ?ths')
      = mset ?q + sum_list (map pending ?ths)
        + (if completes ?pc then {#record_from (source w0) b#} else {#})"
    by simp
  moreover have "mset (map (record_at w0) [0..<c']) = mset (map (record_at w0) [0..<c])
      + (if completes ?pc then {#record_from (source w0) b#} else {#})"
    by (cases "completes ?pc") (simp_all add: cc record_at_def b_def del: mset_upt)
  ultimately have ms': "mset q' + sum_list (map pending ?ths')
      = mset (map (record_at w0) [0..<c'])"
    by (simp only: ms)
  have mid': "sum_list (map part_drawn ?ths') = part_drawn (?ths' ! j) \<and>
        partial_ok (source w0) (pos w0 + 4 * c') (?ths' ! j)"
    if "j < length ?ths'" "mid_record (?ths' ! j)" for j
  proof -
    have "j = i" using that others [of j] by (cases "j = i") simp_all
    moreover have "sum_list (map part_drawn ?ths') = part_drawn pc'"
      using U2 P by simp
    moreover have "pos w0 + 4 * c' = (if completes ?pc then b + 4 else b)"
      by (simp add: cc b_def)
    ultimately show ?thesis using W3 True by simp
  qed
  have src': "src_inv g w0 (s\<lparr>world := w', data_queue := q', threads := ?ths'\<rparr>)"
    using src_inv_step [OF src, of i] by (simp add: st)
  show ?thesis
    unfolding atomic_inv_def st using src' ms' mid' by (simp add: c'_def)
qed

lemma atomic_inv_other_step:
  assumes inv: "atomic_inv g w0 s" and nd: "\<not> draws_next i s"
  shows "atomic_inv g w0 (step source_factory i s)"
proof (cases "i < length (threads s)")
  case False
  then show ?thesis using inv by (simp add: step_out_of_range)
next
  case True
  let ?ths = "threads s" and ?q = "data_queue s" and ?pc = "threads s ! i"
  obtain pc' w' q' where
    ws: "worker_step source_factory (self s) ?pc (world s) ?q = (pc', w', q')"
    and st: "step source_factory i s = s\<lparr>world := w', data_queue := q', threads := ?ths[i := pc']\<rparr>"
    using True by (rule step_unfold)
  let ?ths' = "?ths[i := pc']"
  define c where "c = length ?q + sum_list (map built ?ths)"
  define c' where "c' = length q' + sum_list (map built ?ths')"
  from inv have src: "src_inv g w0 s"
    and ms: "mset ?q + sum_list (map pending ?ths) = mset (map (record_at w0) [0..<c])"
    and mid: "\<And>j. j < length ?ths \<Longrightarrow> mid_record (?ths ! j) \<Longrightarrow>
        sum_list (map part_drawn ?ths) = part_drawn (?ths ! j) \<and>
        partial_ok (source w0) (pos w0 + 4 * c) (?ths ! j)"
    by (simp_all add: atomic_inv_def c_def)
  from src True have g: "self s = g" and len: "length ?ths = nat (num_threads g)"
    by (simp_all add: src_inv_def)
  from True len have k: "num_threads (self s) \<noteq> 0" unfolding g by auto
  from nd True have ndpc: "\<not> is_draw ?pc" by (simp add: draws_next_def)
  have N1: "mset q' + pending pc' = mset ?q + pending ?pc"
    and N2: "length q' + built pc' = length ?q + built ?pc"
    and N3: "part_drawn pc' = 0" and N4: "part_drawn ?pc = 0" and N5: "\<not> mid_record pc'"
    using worker_step_no_draw [OF ws k ndpc] by simp_all
  have U1: "sum_list (map built ?ths') + built ?pc = sum_list (map built ?ths) + built pc'"
    using True by (rule sum_list_map_update_gen)
  have U2: "sum_list (map part_drawn ?ths') + part_drawn ?pc
      = sum_list (map part_drawn ?ths) + part_drawn pc'"
    using True by (rule sum_list_map_update_gen)
  have U3: "sum_list (map pending ?ths') + pending ?pc = sum_list (map pending ?ths) + pending pc'"
    using True by (rule sum_list_map_update_gen)
  have cc: "c' = c" using N2 U1 unfolding c_def c'_def by simp
  have pp: "sum_list (map part_drawn ?ths') = sum_list (map part_drawn ?ths)"
    using U2 N3 N4 by simp
  have "mset q' + sum_list (map pending ?ths') + pending ?pc
      = mset q' + pending pc' + sum_list (map pending ?ths)"
    using U3 by (simp add: ac_simps)
  also have "\<dots> = mset ?q + sum_list (map pending ?ths) + pending ?pc"
    unfolding N1 by (simp add: ac_simps)
  finally have "mset q' + sum_list (map pending ?ths') = mset ?q + sum_list (map pending ?ths)"
    by simp
  then have ms': "mset q' + sum_list (map pending ?ths') = mset (map (record_at w0) [0..<c'])"
    by (simp only: ms cc)
  have mid': "sum_list (map part_drawn ?ths') = part_drawn (?ths' ! j) \<and>
        partial_ok (source w0) (pos w0 + 4 * c') (?ths' ! j)"
    if "j < length ?ths'" "mid_record (?ths' ! j)" for j
  proof -
    have "j \<noteq> i" using that N5 True by auto
    then have same: "?ths' ! j = ?ths ! j" by simp
    with that have "j < length ?ths" "mid_record (?ths ! j)" by simp_all
    from mid [OF this] show ?thesis by (simp add: same pp cc)
  qed
  have src': "src_inv g w0 (s\<lparr>world := w', data_queue := q', threads := ?ths'\<rparr>)"
    using src_inv_step [OF src, of i] by (simp add: st)
  show ?thesis
    unfolding atomic_inv_def st using src' ms' mid' by (simp add: c'_def)
qed

lemma atomic_inv_step:
  assumes "atomic_inv g w0 s" and "draws_next i s \<longrightarrow> undisturbed i s"
  shows "atomic_inv g w0 (step source_factory i s)"
  using assms atomic_inv_draw_step atomic_inv_other_step by blast

lemma atomic_fold:
  "draw_atomic source_factory sched s \<Longrightarrow> atomic_inv g w0 s \<Longrightarrow>
     atomic_inv g w0 (fold (step source_factory) sched s)"
proof (induction sched arbitrary: s)
  case Nil
  then show ?case by simp
next
  case (Cons i sched)
  from Cons.prems have "draws_next i s \<longrightarrow> undisturbed i s"
    and rest: "draw_atomic source_factory sched (step source_factory i s)" by simp_all
  with Cons.prems(2) have "atomic_inv g w0 (step source_factory i s)"
    by (simp add: atomic_inv_step)
  with rest show ?case using Cons.IH by simp
qed

lemma sum_list_replicate_zero: "sum_list (replicate n (0::'b::comm_monoid_add)) = 0"
  by (induction n) simp_all

lemma atomic_inv_spawn: "atomic_inv g w (spawn g w)"
  using src_inv_spawn [of g w]
  by (simp add: atomic_inv_def) (simp add: spawn_def sum_list_replicate_zero)

lemma atomic_final:
  assumes "atomic_schedule g sched w"
  shows "atomic_inv g w (final source_factory g sched w)"
  unfolding final_whole_schedule
  using assms atomic_inv_spawn unfolding atomic_schedule_def by (rule atomic_fold)

lemma atomic_mset:
  assumes "atomic_schedule g sched w"
  shows "mset (data_queue (final source_factory g sched w))
           = mset (map (record_at w) [0..<expected_length g])"
proof -
  have "sum_list (map pending (replicate (nat (num_threads g)) Returned)) = {#}"
    "sum_list (map built (replicate (nat (num_threads g)) Returned)) = 0"
    by (simp_all add: sum_list_replicate_zero)
  then show ?thesis
    using atomic_final [OF assms]
    by (simp add: atomic_inv_def final_source_threads final_source_length
        sum_list_replicate_zero del: mset_upt mset_map)
qed

section \<open>The result depends on the state of the source\<close>




section \<open>Evaluating concrete runs\<close>

lemma loop_head_numeral: "loop_head (numeral k) = DrawName (pred_numeral k)"
  by (simp add: numeral_eq_Suc)

lemmas run_eval = loop_head_numeral generate_data_def generate_data_with_def Let_def spawn_def step_def
  join_threads_def run_to_end_def drain_append numeral_2_eq_2 py_floordiv_def make_record_def
lemmas source_eval = source_factory_def generate_name_def generate_city_def choice_def
  randint_def getrand_def names_def cities_def

lemma final_no_threads:
  assumes "num_threads g \<le> 0"
  shows "final f g sched w = spawn g w"
proof -
  have "step f i (spawn g w) = spawn g w" for i
    using assms by (simp add: step_out_of_range spawn_def)
  then have "join_threads f (fold (step f) sched (spawn g w)) = spawn g w"
    by (intro pipeline_inv [where P = "\<lambda>s. s = spawn g w"]) simp_all
  then show ?thesis by (simp add: final_def)
qed

section \<open>The claims\<close>

text \<open>
  C1. For every worker count of at least one and every total of at least zero, whatever
  the interleaving of the workers and the state of the random source,
  \<^verbatim>\<open>generate_data\<close> returns a list whose length is the floor quotient of the total by
  the worker count, times the worker count: the remainder is dropped.
\<close>
theorem generate_data_length:
  assumes "1 \<le> num_threads g" and "0 \<le> num_records g"
  shows "\<exists>data. returned (generate_data g sched w) = Inr data \<and>
           int (length data) = (num_records g div num_threads g) * num_threads g"
proof -
  have "0 \<le> num_records g div num_threads g"
    using assms by (simp add: pos_imp_zdiv_nonneg_iff)
  then have "int (expected_length g) = (num_records g div num_threads g) * num_threads g"
    using assms(1) by (simp add: expected_length_def)
  then show ?thesis
    by (simp add: generate_data_def outcome_final final_source_length)
qed

text \<open>Four workers and 101 records give exactly 100 records.\<close>
theorem generate_data_length_witness:
  "(1::int) \<le> 4 \<and> (0::int) \<le> 101 \<and>
   (\<exists>data. returned (generate_data \<lparr>num_threads = 4, num_records = 101\<rparr> [0, 1, 2, 3, 3, 0]
              \<lparr>source = (\<lambda>i. i), pos = 0\<rparr>) = Inr data \<and> int (length data) = 100)"
  using generate_data_length [of "\<lparr>num_threads = 4, num_records = 101\<rparr>" "[0, 1, 2, 3, 3, 0]"
      "\<lparr>source = (\<lambda>i. i), pos = 0\<rparr>"]
  by simp

text \<open>
  C9. With a worker count of zero or less, \<^verbatim>\<open>range(self.num_threads)\<close> is empty: no
  worker exists, so no worker evaluates the division, nothing is drawn from the random
  source, no error is raised and the empty list is returned.
\<close>
theorem generate_data_no_workers:
  assumes "num_threads g \<le> 0"
  shows "returned (generate_data g sched w) = Inr [] \<and>
         workers (generate_data g sched w) = [] \<and>
         world_after (generate_data g sched w) = w"
  using assms
  by (simp add: generate_data_def outcome_final final_no_threads spawn_def)

text \<open>Worker counts 0 and -3.\<close>
theorem generate_data_no_workers_witness:
  "(0::int) \<le> 0 \<and>
   returned (generate_data \<lparr>num_threads = 0, num_records = 10\<rparr> [0, 1, 0]
     \<lparr>source = (\<lambda>i. i), pos = 0\<rparr>) = Inr [] \<and>
   workers (generate_data \<lparr>num_threads = 0, num_records = 10\<rparr> [0, 1, 0]
     \<lparr>source = (\<lambda>i. i), pos = 0\<rparr>) = [] \<and>
   (- 3 :: int) \<le> 0 \<and>
   returned (generate_data \<lparr>num_threads = - 3, num_records = 10\<rparr> []
     \<lparr>source = (\<lambda>i. i), pos = 0\<rparr>) = Inr []"
  using generate_data_no_workers [of "\<lparr>num_threads = 0, num_records = 10\<rparr>" "[0, 1, 0]"
      "\<lparr>source = (\<lambda>i. i), pos = 0\<rparr>"]
    generate_data_no_workers [of "\<lparr>num_threads = - 3, num_records = 10\<rparr>" "[]"
      "\<lparr>source = (\<lambda>i. i), pos = 0\<rparr>"]
  by simp

text \<open>
  C3 as stated asks for an \<^verbatim>\<open>InvalidConfiguration\<close> failure on a worker count of zero
  or less and on a negative total. The code validates nothing: with zero workers and with
  a total of -5 the call returns the empty list.
\<close>
theorem invalid_configuration_counterexample:
  "returned (generate_data \<lparr>num_threads = 0, num_records = 10\<rparr> []
     \<lparr>source = (\<lambda>i. i), pos = 0\<rparr>) = Inr [] \<and>
   returned (generate_data \<lparr>num_threads = 2, num_records = - 5\<rparr> [0, 1]
     \<lparr>source = (\<lambda>i. i), pos = 0\<rparr>) = Inr []"
  by (simp add: run_eval)

text \<open>
  C3, amended. For every worker count of zero or less with any total, and for every
  negative total with any worker count, \<^verbatim>\<open>generate_data\<close> raises no error and returns
  the empty list.
\<close>
theorem generate_data_invalid_configuration:
  assumes "num_threads g \<le> 0 \<or> num_records g < 0"
  shows "returned (generate_data g sched w) = Inr []"
proof -
  have "expected_length g = 0"
  proof (cases "num_threads g \<le> 0")
    case True
    then show ?thesis by (simp add: expected_length_def)
  next
    case False
    with assms have "num_records g div num_threads g < 0"
      by (simp add: pos_imp_zdiv_neg_iff)
    then show ?thesis by (simp add: expected_length_def)
  qed
  then show ?thesis
    using final_source_length [of g sched w] by (simp add: generate_data_def outcome_final)
qed

text \<open>Zero workers with a total of 7, and three workers with a total of -7.\<close>
theorem generate_data_invalid_configuration_witness:
  "((0::int) \<le> 0 \<or> (7::int) < 0) \<and>
   returned (generate_data \<lparr>num_threads = 0, num_records = 7\<rparr> [0]
     \<lparr>source = (\<lambda>i. i), pos = 0\<rparr>) = Inr [] \<and>
   ((3::int) \<le> 0 \<or> (- 7 :: int) < 0) \<and>
   returned (generate_data \<lparr>num_threads = 3, num_records = - 7\<rparr> [2, 0, 1]
     \<lparr>source = (\<lambda>i. i), pos = 0\<rparr>) = Inr []"
  using generate_data_invalid_configuration [of "\<lparr>num_threads = 0, num_records = 7\<rparr>" "[0]"
      "\<lparr>source = (\<lambda>i. i), pos = 0\<rparr>"]
    generate_data_invalid_configuration [of "\<lparr>num_threads = 3, num_records = - 7\<rparr>" "[2, 0, 1]"
      "\<lparr>source = (\<lambda>i. i), pos = 0\<rparr>"]
  by simp

text \<open>
  C4. Every record that \<^verbatim>\<open>generate_data\<close> returns is a dictionary with the keys name,
  age, city and salary, whose name is one of the five literal names, whose age is an
  integer from 20 to 50, whose city is one of the five literal cities and whose salary is
  an integer from 30000 to 100000.
\<close>
theorem generate_data_field_ranges:
  assumes "returned (generate_data g sched w) = Inr data" and "r \<in> set data"
  shows "\<exists>n a c s.
           r = [(''name'', n), (''age'', PyInt a), (''city'', c), (''salary'', PyInt s)] \<and>
           n \<in> set names \<and> 20 \<le> a \<and> a \<le> 50 \<and> c \<in> set cities \<and>
           30000 \<le> s \<and> s \<le> 100000 \<and> card (set names) = 5 \<and> card (set cities) = 5"
proof -
  from assms have "valid_record r"
    by (auto simp: generate_data_def outcome_final final_source_valid)
  then obtain n a c s where
    "r = [(''name'', n), (''age'', PyInt a), (''city'', c), (''salary'', PyInt s)]"
    "n \<in> set names" "20 \<le> a" "a \<le> 50" "c \<in> set cities" "30000 \<le> s" "s \<le> 100000"
    by (rule valid_recordD)
  moreover have "card (set names) = 5" "card (set cities) = 5"
    by (simp_all add: names_def cities_def)
  ultimately show ?thesis by blast
qed

text \<open>The second record of a run of two workers that alternate at every action.\<close>
theorem generate_data_field_ranges_witness:
  "returned (generate_data \<lparr>num_threads = 2, num_records = 2\<rparr>
      [0, 1, 0, 1, 0, 1, 0, 1, 0, 1, 0, 1] \<lparr>source = (\<lambda>i. i), pos = 0\<rparr>) =
     Inr [[(''name'', PyStr ''Alice''), (''age'', PyInt 22),
           (''city'', PyStr ''Miami''), (''salary'', PyInt 30006)],
          [(''name'', PyStr ''Bob''), (''age'', PyInt 23),
           (''city'', PyStr ''New York''), (''salary'', PyInt 30007)]] \<and>
   (\<exists>n a c s.
      [(''name'', PyStr ''Bob''), (''age'', PyInt 23),
       (''city'', PyStr ''New York''), (''salary'', PyInt 30007)] =
      [(''name'', n), (''age'', PyInt a), (''city'', c), (''salary'', PyInt s)] \<and>
      n \<in> set names \<and> 20 \<le> a \<and> a \<le> 50 \<and> c \<in> set cities \<and>
      30000 \<le> s \<and> s \<le> 100000 \<and> card (set names) = 5 \<and> card (set cities) = 5)"
proof -
  have run: "returned (generate_data \<lparr>num_threads = 2, num_records = 2\<rparr>
      [0, 1, 0, 1, 0, 1, 0, 1, 0, 1, 0, 1] \<lparr>source = (\<lambda>i. i), pos = 0\<rparr>) =
     Inr [[(''name'', PyStr ''Alice''), (''age'', PyInt 22),
           (''city'', PyStr ''Miami''), (''salary'', PyInt 30006)],
          [(''name'', PyStr ''Bob''), (''age'', PyInt 23),
           (''city'', PyStr ''New York''), (''salary'', PyInt 30007)]]"
    by (simp add: run_eval source_eval)
  show ?thesis
    using run generate_data_field_ranges [OF run,
      of "[(''name'', PyStr ''Bob''), (''age'', PyInt 23),
           (''city'', PyStr ''New York''), (''salary'', PyInt 30007)]"]
    by simp
qed

text \<open>
  C5. Each \<^verbatim>\<open>put\<close> on the queue is one atomic action of the worker that makes it, which
  is what the lock of \<^verbatim>\<open>queue.Queue\<close> provides. Then for every interleaving of the
  actions of eight workers and a total of 800, the list that \<^verbatim>\<open>generate_data\<close> returns
  is exactly the list of the records handed to \<^verbatim>\<open>put\<close>, in the order of the put
  actions: no record is lost, none is returned twice and none is changed. It has 800
  records, every one put by one of the eight workers and satisfying the field
  constraints, each worker has put exactly 100 of them, and no worker ends with an
  exception.
\<close>
theorem generate_data_8_800:
  "let g = \<lparr>num_threads = 8, num_records = 800\<rparr>;
       tr = put_trace source_factory (whole_schedule source_factory g sched w) (spawn g w)
   in returned (generate_data g sched w) = Inr (map snd tr) \<and>
      length tr = 800 \<and>
      (\<forall>p \<in> set tr. fst p < 8 \<and> valid_record (snd p)) \<and>
      (\<forall>i<8. puts_by i tr = 100) \<and>
      workers (generate_data g sched w) = replicate 8 Returned"
proof -
  let ?g = "\<lparr>num_threads = 8, num_records = 800\<rparr>"
  let ?tr = "put_trace source_factory (whole_schedule source_factory ?g sched w) (spawn ?g w)"
  have q: "data_queue (final source_factory ?g sched w) = map snd ?tr"
    by (rule final_put_trace)
  have "expected_length ?g = 800" by (simp add: expected_length_def)
  then have "length (data_queue (final source_factory ?g sched w)) = 800"
    by (simp add: final_source_length)
  then have len: "length ?tr = 800" by (simp add: q)
  have who: "fst p < 8" if "p \<in> set ?tr" for p
    using put_trace_workers [OF that] by (simp add: spawn_def)
  have ok: "valid_record (snd p)" if "p \<in> set ?tr" for p
  proof -
    from that have "snd p \<in> set (data_queue (final source_factory ?g sched w))"
      by (simp add: q)
    then show ?thesis by (rule final_source_valid)
  qed
  have each: "puts_by i ?tr = 100" if "i < 8" for i
    using that final_source_puts_by [of i ?g sched w] by simp
  have ths: "threads (final source_factory ?g sched w) = replicate 8 Returned"
    by (simp add: final_source_threads)
  show ?thesis
    unfolding Let_def using len who ok each ths q
    by (simp add: generate_data_def outcome_final)
qed

text \<open>
  A schedule that interleaves the eight workers: 800 records, worker 3 has put 100 of
  them, and the first record put is valid and comes from one of the eight workers.
\<close>
theorem generate_data_8_800_witness:
  "returned (generate_data \<lparr>num_threads = 8, num_records = 800\<rparr>
      [0, 1, 2, 3, 4, 5, 6, 7, 7, 6, 5, 4, 3, 2, 1, 0, 3, 3, 5]
      \<lparr>source = (\<lambda>i. 7 * i + 3), pos = 0\<rparr>) =
     Inr (map snd (put_trace source_factory
       (whole_schedule source_factory \<lparr>num_threads = 8, num_records = 800\<rparr>
          [0, 1, 2, 3, 4, 5, 6, 7, 7, 6, 5, 4, 3, 2, 1, 0, 3, 3, 5]
          \<lparr>source = (\<lambda>i. 7 * i + 3), pos = 0\<rparr>)
       (spawn \<lparr>num_threads = 8, num_records = 800\<rparr> \<lparr>source = (\<lambda>i. 7 * i + 3), pos = 0\<rparr>))) \<and>
   length (put_trace source_factory
       (whole_schedule source_factory \<lparr>num_threads = 8, num_records = 800\<rparr>
          [0, 1, 2, 3, 4, 5, 6, 7, 7, 6, 5, 4, 3, 2, 1, 0, 3, 3, 5]
          \<lparr>source = (\<lambda>i. 7 * i + 3), pos = 0\<rparr>)
       (spawn \<lparr>num_threads = 8, num_records = 800\<rparr> \<lparr>source = (\<lambda>i. 7 * i + 3), pos = 0\<rparr>)) = 800 \<and>
   puts_by 3 (put_trace source_factory
       (whole_schedule source_factory \<lparr>num_threads = 8, num_records = 800\<rparr>
          [0, 1, 2, 3, 4, 5, 6, 7, 7, 6, 5, 4, 3, 2, 1, 0, 3, 3, 5]
          \<lparr>source = (\<lambda>i. 7 * i + 3), pos = 0\<rparr>)
       (spawn \<lparr>num_threads = 8, num_records = 800\<rparr> \<lparr>source = (\<lambda>i. 7 * i + 3), pos = 0\<rparr>)) = 100 \<and>
   fst (hd (put_trace source_factory
       (whole_schedule source_factory \<lparr>num_threads = 8, num_records = 800\<rparr>
          [0, 1, 2, 3, 4, 5, 6, 7, 7, 6, 5, 4, 3, 2, 1, 0, 3, 3, 5]
          \<lparr>source = (\<lambda>i. 7 * i + 3), pos = 0\<rparr>)
       (spawn \<lparr>num_threads = 8, num_records = 800\<rparr> \<lparr>source = (\<lambda>i. 7 * i + 3), pos = 0\<rparr>))) < 8 \<and>
   valid_record (snd (hd (put_trace source_factory
       (whole_schedule source_factory \<lparr>num_threads = 8, num_records = 800\<rparr>
          [0, 1, 2, 3, 4, 5, 6, 7, 7, 6, 5, 4, 3, 2, 1, 0, 3, 3, 5]
          \<lparr>source = (\<lambda>i. 7 * i + 3), pos = 0\<rparr>)
       (spawn \<lparr>num_threads = 8, num_records = 800\<rparr> \<lparr>source = (\<lambda>i. 7 * i + 3), pos = 0\<rparr>))))"
proof -
  let ?g = "\<lparr>num_threads = 8, num_records = 800\<rparr>"
  let ?w = "\<lparr>source = (\<lambda>i. 7 * i + 3), pos = 0\<rparr>"
  let ?sched = "[0, 1, 2, 3, 4, 5, 6, 7, 7, 6, 5, 4, 3, 2, 1, 0, 3, 3, 5]"
  let ?tr = "put_trace source_factory (whole_schedule source_factory ?g ?sched ?w) (spawn ?g ?w)"
  note C = generate_data_8_800 [of ?sched ?w, unfolded Let_def]
  from C have len: "length ?tr = 800" by blast
  then have "?tr \<noteq> []" by auto
  then have "hd ?tr \<in> set ?tr" by simp
  with C have "fst (hd ?tr) < 8" "valid_record (snd (hd ?tr))" by blast+
  moreover from C have "puts_by 3 ?tr = 100" by simp
  moreover from C have "returned (generate_data ?g ?sched ?w) = Inr (map snd ?tr)" by blast
  ultimately show ?thesis using len by blast
qed

text \<open>
  C10 as stated says that successive calls on one generator share no state. The random
  source of the process is carried from call to call: after a first call with one worker
  and a total of one the source stands four draws further, and the second call, on the
  same generator and with the same schedule, returns another record than the first.
\<close>
theorem shared_source_counterexample:
  "returned (generate_data \<lparr>num_threads = 1, num_records = 1\<rparr> [0, 0, 0, 0, 0, 0]
      \<lparr>source = (\<lambda>i. i), pos = 0\<rparr>) =
     Inr [[(''name'', PyStr ''Alice''), (''age'', PyInt 21),
           (''city'', PyStr ''Chicago''), (''salary'', PyInt 30003)]] \<and>
   pos (world_after (generate_data \<lparr>num_threads = 1, num_records = 1\<rparr> [0, 0, 0, 0, 0, 0]
      \<lparr>source = (\<lambda>i. i), pos = 0\<rparr>)) = 4 \<and>
   returned (generate_data
      (self_after (generate_data \<lparr>num_threads = 1, num_records = 1\<rparr> [0, 0, 0, 0, 0, 0]
         \<lparr>source = (\<lambda>i. i), pos = 0\<rparr>))
      [0, 0, 0, 0, 0, 0]
      (world_after (generate_data \<lparr>num_threads = 1, num_records = 1\<rparr> [0, 0, 0, 0, 0, 0]
         \<lparr>source = (\<lambda>i. i), pos = 0\<rparr>))) =
     Inr [[(''name'', PyStr ''Eve''), (''age'', PyInt 25),
           (''city'', PyStr ''Los Angeles''), (''salary'', PyInt 30007)]]"
  by (simp add: run_eval source_eval)

text \<open>
  C10, amended. A call of \<^verbatim>\<open>generate_data\<close> leaves \<^verbatim>\<open>num_threads\<close> and
  \<^verbatim>\<open>num_records\<close> as they were set at construction and starts from a queue of its own,
  so that it returns exactly the records put during that call. Successive calls on the
  same generator share nothing but the random source of the process, which each call
  leaves advanced by four draws for each record: the first call returns records drawn
  from the first window of the source, the second call records drawn from the window
  that follows it, and each returns a list of the same length, the floor quotient of the
  total by the worker count for each worker.
\<close>
theorem generate_data_frame:
  "let first = generate_data g sched1 w;
       second = generate_data (self_after first) sched2 (world_after first);
       n = nat (num_threads g) * nat (num_records g div num_threads g)
   in self_after first = g \<and> self_after second = g \<and>
      source (world_after first) = source w \<and> pos (world_after first) = pos w + 4 * n \<and>
      source (world_after second) = source w \<and> pos (world_after second) = pos w + 8 * n \<and>
      returned first = Inr (map snd (put_trace source_factory
        (whole_schedule source_factory g sched1 w) (spawn g w))) \<and>
      returned second = Inr (map snd (put_trace source_factory
        (whole_schedule source_factory g sched2 (world_after first))
        (spawn g (world_after first)))) \<and>
      (\<exists>data1 data2. returned first = Inr data1 \<and> returned second = Inr data2 \<and>
         length data1 = n \<and> length data2 = n \<and>
         (\<forall>r \<in> set data1. from_source (source w) (pos w) (pos w + 4 * n) r) \<and>
         (\<forall>r \<in> set data2. from_source (source w) (pos w + 4 * n) (pos w + 8 * n) r))"
proof -
  let ?n = "nat (num_threads g) * nat (num_records g div num_threads g)"
  let ?w1 = "world (final source_factory g sched1 w)"
  have n: "expected_length g = ?n" by (simp add: expected_length_def)
  have w1: "source ?w1 = source w" "pos ?w1 = pos w + 4 * ?n"
    using final_source_world [of g sched1 w] by (simp_all add: final_source_length n)
  have w2: "source (world (final source_factory g sched2 ?w1)) = source w"
    "pos (world (final source_factory g sched2 ?w1)) = pos w + 8 * ?n"
    using final_source_world [of g sched2 ?w1] by (simp_all add: final_source_length n w1)
  have d1: "\<forall>r \<in> set (data_queue (final source_factory g sched1 w)).
      from_source (source w) (pos w) (pos w + 4 * ?n) r"
    using final_source_from [of _ g sched1 w] by (simp add: final_source_length n)
  have d2: "\<forall>r \<in> set (data_queue (final source_factory g sched2 ?w1)).
      from_source (source w) (pos w + 4 * ?n) (pos w + 8 * ?n) r"
  proof
    fix r assume "r \<in> set (data_queue (final source_factory g sched2 ?w1))"
    then have "from_source (source ?w1) (pos ?w1)
        (pos ?w1 + 4 * length (data_queue (final source_factory g sched2 ?w1))) r"
      by (rule final_source_from)
    moreover have "pos w + 4 * ?n + 4 * ?n = pos w + 8 * ?n" by simp
    ultimately show "from_source (source w) (pos w + 4 * ?n) (pos w + 8 * ?n) r"
      by (simp only: w1 final_source_length n)
  qed
  have l1: "length (data_queue (final source_factory g sched1 w)) = ?n"
    and l2: "length (data_queue (final source_factory g sched2 ?w1)) = ?n"
    by (simp_all add: final_source_length n)
  have q1: "data_queue (final source_factory g sched1 w) = map snd (put_trace source_factory
        (whole_schedule source_factory g sched1 w) (spawn g w))"
    and q2: "data_queue (final source_factory g sched2 ?w1) = map snd (put_trace source_factory
        (whole_schedule source_factory g sched2 ?w1) (spawn g ?w1))"
    by (rule final_put_trace)+
  show ?thesis
    unfolding Let_def generate_data_def outcome_final final_self
    using w1 w2 d1 d2 l1 l2 q1 q2 by simp
qed

text \<open>
  One worker and a total of one, twice; the second schedule also names workers that do
  not exist. The second call returns the record of the draws at positions 4 to 7.
\<close>
theorem generate_data_frame_witness:
  "self_after (generate_data \<lparr>num_threads = 1, num_records = 1\<rparr> [0, 0, 0, 0, 0, 0]
      \<lparr>source = (\<lambda>i. i), pos = 0\<rparr>) = \<lparr>num_threads = 1, num_records = 1\<rparr> \<and>
   returned (generate_data \<lparr>num_threads = 1, num_records = 1\<rparr> [0, 0, 0, 0, 0, 0]
      \<lparr>source = (\<lambda>i. i), pos = 0\<rparr>) =
     Inr [[(''name'', PyStr ''Alice''), (''age'', PyInt 21),
           (''city'', PyStr ''Chicago''), (''salary'', PyInt 30003)]] \<and>
   returned (generate_data
      (self_after (generate_data \<lparr>num_threads = 1, num_records = 1\<rparr> [0, 0, 0, 0, 0, 0]
         \<lparr>source = (\<lambda>i. i), pos = 0\<rparr>))
      [0, 5, 0, 0, 0, 0, 0, 9]
      (world_after (generate_data \<lparr>num_threads = 1, num_records = 1\<rparr> [0, 0, 0, 0, 0, 0]
         \<lparr>source = (\<lambda>i. i), pos = 0\<rparr>))) =
     Inr [[(''name'', PyStr ''Eve''), (''age'', PyInt 25),
           (''city'', PyStr ''Los Angeles''), (''salary'', PyInt 30007)]] \<and>
   from_source (\<lambda>i. i) 0 4
     [(''name'', PyStr ''Alice''), (''age'', PyInt 21),
      (''city'', PyStr ''Chicago''), (''salary'', PyInt 30003)] \<and>
   from_source (\<lambda>i. i) 4 8
     [(''name'', PyStr ''Eve''), (''age'', PyInt 25),
      (''city'', PyStr ''Los Angeles''), (''salary'', PyInt 30007)]"
proof -
  let ?g = "\<lparr>num_threads = 1, num_records = 1\<rparr>"
  let ?w = "\<lparr>source = (\<lambda>i. i), pos = 0\<rparr>"
  let ?first = "generate_data ?g [0, 0, 0, 0, 0, 0] ?w"
  let ?second = "generate_data (self_after ?first) [0, 5, 0, 0, 0, 0, 0, 9] (world_after ?first)"
  have r1: "returned ?first =
     Inr [[(''name'', PyStr ''Alice''), (''age'', PyInt 21),
           (''city'', PyStr ''Chicago''), (''salary'', PyInt 30003)]]"
    by (simp add: run_eval source_eval)
  have r2: "returned ?second =
     Inr [[(''name'', PyStr ''Eve''), (''age'', PyInt 25),
           (''city'', PyStr ''Los Angeles''), (''salary'', PyInt 30007)]]"
    by (simp add: run_eval source_eval)
  note T = generate_data_frame [of ?g "[0, 0, 0, 0, 0, 0]" ?w "[0, 5, 0, 0, 0, 0, 0, 9]",
      unfolded Let_def]
  from T have s: "self_after ?first = ?g" by blast
  from T obtain data1 data2 where "returned ?first = Inr data1" "returned ?second = Inr data2"
    and f1: "\<forall>r \<in> set data1. from_source (source ?w) (pos ?w)
        (pos ?w + 4 * (nat (num_threads ?g) * nat (num_records ?g div num_threads ?g))) r"
    and f2: "\<forall>r \<in> set data2. from_source (source ?w)
        (pos ?w + 4 * (nat (num_threads ?g) * nat (num_records ?g div num_threads ?g)))
        (pos ?w + 8 * (nat (num_threads ?g) * nat (num_records ?g div num_threads ?g))) r"
    by blast
  with r1 r2 have "data1 = [[(''name'', PyStr ''Alice''), (''age'', PyInt 21),
           (''city'', PyStr ''Chicago''), (''salary'', PyInt 30003)]]"
    "data2 = [[(''name'', PyStr ''Eve''), (''age'', PyInt 25),
           (''city'', PyStr ''Los Angeles''), (''salary'', PyInt 30007)]]"
    by simp_all
  with f1 f2 have "from_source (\<lambda>i. i) 0 4
     [(''name'', PyStr ''Alice''), (''age'', PyInt 21),
      (''city'', PyStr ''Chicago''), (''salary'', PyInt 30003)]"
    "from_source (\<lambda>i. i) 4 8
     [(''name'', PyStr ''Eve''), (''age'', PyInt 25),
      (''city'', PyStr ''Los Angeles''), (''salary'', PyInt 30007)]"
    by simp_all
  with s r1 r2 show ?thesis by blast
qed







lemma dict_to_list_record:
  assumes "set (map fst row) = set fieldnames"
  shows "dict_to_list fieldnames row =
           Inr [the (map_of row ''name''), the (map_of row ''age''),
                the (map_of row ''city''), the (map_of row ''salary'')]"
proof -
  have "map_of row k \<noteq> None" if "k \<in> set fieldnames" for k
    using that assms by (simp add: map_of_eq_None_iff)
  then have "\<exists>v. map_of row k = Some v" if "k \<in> set fieldnames" for k
    using that by auto
  then obtain n a c s where
    "map_of row ''name'' = Some n" "map_of row ''age'' = Some a"
    "map_of row ''city'' = Some c" "map_of row ''salary'' = Some s"
    unfolding fieldnames_def by fastforce
  moreover have "\<not> (\<exists>k \<in> set (map fst row). k \<notin> set fieldnames)"
    using assms by simp
  ultimately show ?thesis
    unfolding dict_to_list_def by (simp add: fieldnames_def)
qed

lemma write_rows_records:
  assumes "\<forall>row \<in> set data. set (map fst row) = set fieldnames"
  shows "write_rows data out =
     (None, out @ map (\<lambda>row. [the (map_of row ''name''), the (map_of row ''age''),
                                the (map_of row ''city''), the (map_of row ''salary'')]) data)"
  using assms
proof (induction data arbitrary: out)
  case Nil
  then show ?case by simp
next
  case (Cons row data)
  then have "dict_to_list fieldnames row =
           Inr [the (map_of row ''name''), the (map_of row ''age''),
                the (map_of row ''city''), the (map_of row ''salary'')]"
    by (simp add: dict_to_list_record)
  then show ?case using Cons by simp
qed

text \<open>
  C8. For every list of records, each a dictionary whose keys are name, age, city and
  salary, \<^verbatim>\<open>write_to_csv\<close> raises nothing and writes the header followed by exactly
  one row for each record, in the order of the list, whose cells are the record's name,
  age, city and salary in this order.
\<close>
theorem write_to_csv_rows:
  assumes "\<forall>row \<in> set data. set (map fst row) = set fieldnames"
  shows "write_to_csv data =
     (None, [PyStr ''name'', PyStr ''age'', PyStr ''city'', PyStr ''salary''] #
        map (\<lambda>row. [the (map_of row ''name''), the (map_of row ''age''),
                     the (map_of row ''city''), the (map_of row ''salary'')]) data)"
  using assms by (simp add: write_to_csv_def write_rows_records) (simp add: fieldnames_def)

text \<open>
  Two records, the second built with its keys in another order: the columns keep the
  order name, age, city, salary.
\<close>
theorem write_to_csv_rows_witness:
  "set (map fst [(''name'', PyStr ''Alice''), (''age'', PyInt 21),
                 (''city'', PyStr ''Chicago''), (''salary'', PyInt 30003)]) = set fieldnames \<and>
   set (map fst [(''salary'', PyInt 99000), (''city'', PyStr ''Miami''),
                 (''age'', PyInt 50), (''name'', PyStr ''Eve'')]) = set fieldnames \<and>
   write_to_csv [[(''name'', PyStr ''Alice''), (''age'', PyInt 21),
                  (''city'', PyStr ''Chicago''), (''salary'', PyInt 30003)],
                 [(''salary'', PyInt 99000), (''city'', PyStr ''Miami''),
                  (''age'', PyInt 50), (''name'', PyStr ''Eve'')]] =
     (None, [[PyStr ''name'', PyStr ''age'', PyStr ''city'', PyStr ''salary''],
             [PyStr ''Alice'', PyInt 21, PyStr ''Chicago'', PyInt 30003],
             [PyStr ''Eve'', PyInt 50, PyStr ''Miami'', PyInt 99000]])"
proof -
  have k1: "set (map fst [(''name'', PyStr ''Alice''), (''age'', PyInt 21),
                 (''city'', PyStr ''Chicago''), (''salary'', PyInt 30003)]) = set fieldnames"
    by (simp add: fieldnames_def)
  have k2: "set (map fst [(''salary'', PyInt 99000), (''city'', PyStr ''Miami''),
                 (''age'', PyInt 50), (''name'', PyStr ''Eve'')]) = set fieldnames"
    by (auto simp: fieldnames_def)
  have keys: "\<forall>row \<in> set [[(''name'', PyStr ''Alice''), (''age'', PyInt 21),
                    (''city'', PyStr ''Chicago''), (''salary'', PyInt 30003)],
                   [(''salary'', PyInt 99000), (''city'', PyStr ''Miami''),
                    (''age'', PyInt 50), (''name'', PyStr ''Eve'')]].
      set (map fst row) = set fieldnames"
    using k1 k2 by simp
  show ?thesis
    using k1 k2 write_to_csv_rows [OF keys] by simp
qed

text \<open>
  C7 as stated asks that two calls from the same state of the random source, with the
  same worker count and total, return the same multiset of records. The workers share
  one source and can be preempted between the four draws of a record: with two workers
  and a total of two, a run in which the workers alternate at every action and a run in
  which the first worker ends before the second starts return different records.
\<close>
theorem permutation_counterexample:
  "returned (generate_data \<lparr>num_threads = 2, num_records = 2\<rparr>
      [0, 1, 0, 1, 0, 1, 0, 1, 0, 1, 0, 1] \<lparr>source = (\<lambda>i. i), pos = 0\<rparr>) =
     Inr [[(''name'', PyStr ''Alice''), (''age'', PyInt 22),
           (''city'', PyStr ''Miami''), (''salary'', PyInt 30006)],
          [(''name'', PyStr ''Bob''), (''age'', PyInt 23),
           (''city'', PyStr ''New York''), (''salary'', PyInt 30007)]] \<and>
   returned (generate_data \<lparr>num_threads = 2, num_records = 2\<rparr>
      [0, 0, 0, 0, 0, 0, 1, 1, 1, 1, 1, 1] \<lparr>source = (\<lambda>i. i), pos = 0\<rparr>) =
     Inr [[(''name'', PyStr ''Alice''), (''age'', PyInt 21),
           (''city'', PyStr ''Chicago''), (''salary'', PyInt 30003)],
          [(''name'', PyStr ''Eve''), (''age'', PyInt 25),
           (''city'', PyStr ''Los Angeles''), (''salary'', PyInt 30007)]] \<and>
   mset [[(''name'', PyStr ''Alice''), (''age'', PyInt 22),
          (''city'', PyStr ''Miami''), (''salary'', PyInt 30006)],
         [(''name'', PyStr ''Bob''), (''age'', PyInt 23),
          (''city'', PyStr ''New York''), (''salary'', PyInt 30007)]] \<noteq>
   mset [[(''name'', PyStr ''Alice''), (''age'', PyInt 21),
          (''city'', PyStr ''Chicago''), (''salary'', PyInt 30003)],
         [(''name'', PyStr ''Eve''), (''age'', PyInt 25),
          (''city'', PyStr ''Los Angeles''), (''salary'', PyInt 30007)]]"
proof -
  let ?A = "[[(''name'', PyStr ''Alice''), (''age'', PyInt 22),
          (''city'', PyStr ''Miami''), (''salary'', PyInt 30006)],
         [(''name'', PyStr ''Bob''), (''age'', PyInt 23),
          (''city'', PyStr ''New York''), (''salary'', PyInt 30007)]]"
  let ?B = "[[(''name'', PyStr ''Alice''), (''age'', PyInt 21),
          (''city'', PyStr ''Chicago''), (''salary'', PyInt 30003)],
         [(''name'', PyStr ''Eve''), (''age'', PyInt 25),
          (''city'', PyStr ''Los Angeles''), (''salary'', PyInt 30007)]]"
  have "mset ?A \<noteq> mset ?B"
  proof
    assume "mset ?A = mset ?B"
    then have "set ?A = set ?B" by (rule mset_eq_setD)
    then show False by (simp add: doubleton_eq_iff)
  qed
  moreover have "returned (generate_data \<lparr>num_threads = 2, num_records = 2\<rparr>
      [0, 1, 0, 1, 0, 1, 0, 1, 0, 1, 0, 1] \<lparr>source = (\<lambda>i. i), pos = 0\<rparr>) = Inr ?A"
    by (simp add: run_eval source_eval)
  moreover have "returned (generate_data \<lparr>num_threads = 2, num_records = 2\<rparr>
      [0, 0, 0, 0, 0, 0, 1, 1, 1, 1, 1, 1] \<lparr>source = (\<lambda>i. i), pos = 0\<rparr>) = Inr ?B"
    by (simp add: run_eval source_eval)
  ultimately show ?thesis by blast
qed

text \<open>
  C7, amended. Two calls from the same state of the random source, with the same worker
  count and total, return the same multiset of records whenever in both runs no worker
  draws while another worker is between the first and the last draw of a record; the
  order of the records may differ. Actions that draw nothing (entering, putting) may fall
  anywhere. Both calls then return, in some order, the records made of the successive
  blocks of four draws of the source.
\<close>
theorem generate_data_atomic_permutation:
  assumes "atomic_schedule g sched1 w" and "atomic_schedule g sched2 w"
    and "returned (generate_data g sched1 w) = Inr data1"
    and "returned (generate_data g sched2 w) = Inr data2"
  shows "mset data1 = mset data2 \<and>
         mset data1 = mset (map (record_at w)
           [0..<nat (num_threads g) * nat (num_records g div num_threads g)])"
  using assms atomic_mset [of g sched1 w] atomic_mset [of g sched2 w]
  by (simp add: generate_data_def outcome_final expected_length_def del: mset_upt mset_map)

text \<open>
  Two workers and a total of two. In the first run worker 1 enters while worker 0 is
  between its first and its last draw, and draws after worker 0 has put; in the second
  worker 0 has built its record when worker 1 builds and puts its own, and puts last.
  The two lists differ in order and are equal as multisets.
\<close>
theorem generate_data_atomic_permutation_witness:
  "atomic_schedule \<lparr>num_threads = 2, num_records = 2\<rparr> [0, 0, 1, 0, 0, 0, 0, 1, 1, 1, 1, 1]
     \<lparr>source = (\<lambda>i. i), pos = 0\<rparr> \<and>
   atomic_schedule \<lparr>num_threads = 2, num_records = 2\<rparr> [0, 0, 0, 0, 0, 1, 1, 1, 1, 1, 1, 0]
     \<lparr>source = (\<lambda>i. i), pos = 0\<rparr> \<and>
   returned (generate_data \<lparr>num_threads = 2, num_records = 2\<rparr>
      [0, 0, 1, 0, 0, 0, 0, 1, 1, 1, 1, 1] \<lparr>source = (\<lambda>i. i), pos = 0\<rparr>) =
     Inr [[(''name'', PyStr ''Alice''), (''age'', PyInt 21),
           (''city'', PyStr ''Chicago''), (''salary'', PyInt 30003)],
          [(''name'', PyStr ''Eve''), (''age'', PyInt 25),
           (''city'', PyStr ''Los Angeles''), (''salary'', PyInt 30007)]] \<and>
   returned (generate_data \<lparr>num_threads = 2, num_records = 2\<rparr>
      [0, 0, 0, 0, 0, 1, 1, 1, 1, 1, 1, 0] \<lparr>source = (\<lambda>i. i), pos = 0\<rparr>) =
     Inr [[(''name'', PyStr ''Eve''), (''age'', PyInt 25),
           (''city'', PyStr ''Los Angeles''), (''salary'', PyInt 30007)],
          [(''name'', PyStr ''Alice''), (''age'', PyInt 21),
           (''city'', PyStr ''Chicago''), (''salary'', PyInt 30003)]] \<and>
   mset [[(''name'', PyStr ''Alice''), (''age'', PyInt 21),
          (''city'', PyStr ''Chicago''), (''salary'', PyInt 30003)],
         [(''name'', PyStr ''Eve''), (''age'', PyInt 25),
          (''city'', PyStr ''Los Angeles''), (''salary'', PyInt 30007)]] =
   mset [[(''name'', PyStr ''Eve''), (''age'', PyInt 25),
          (''city'', PyStr ''Los Angeles''), (''salary'', PyInt 30007)],
         [(''name'', PyStr ''Alice''), (''age'', PyInt 21),
          (''city'', PyStr ''Chicago''), (''salary'', PyInt 30003)]]"
proof -
  let ?g = "\<lparr>num_threads = 2, num_records = 2\<rparr>"
  let ?w = "\<lparr>source = (\<lambda>i. i), pos = 0\<rparr>"
  have a1: "atomic_schedule ?g [0, 0, 1, 0, 0, 0, 0, 1, 1, 1, 1, 1] ?w"
    by (simp add: atomic_schedule_def whole_schedule_def completion_def draws_next_def
        undisturbed_def All_less_Suc run_eval source_eval)
  have a2: "atomic_schedule ?g [0, 0, 0, 0, 0, 1, 1, 1, 1, 1, 1, 0] ?w"
    by (simp add: atomic_schedule_def whole_schedule_def completion_def draws_next_def
        undisturbed_def All_less_Suc run_eval source_eval)
  have r1: "returned (generate_data ?g [0, 0, 1, 0, 0, 0, 0, 1, 1, 1, 1, 1] ?w) =
     Inr [[(''name'', PyStr ''Alice''), (''age'', PyInt 21),
           (''city'', PyStr ''Chicago''), (''salary'', PyInt 30003)],
          [(''name'', PyStr ''Eve''), (''age'', PyInt 25),
           (''city'', PyStr ''Los Angeles''), (''salary'', PyInt 30007)]]"
    by (simp add: run_eval source_eval)
  have r2: "returned (generate_data ?g [0, 0, 0, 0, 0, 1, 1, 1, 1, 1, 1, 0] ?w) =
     Inr [[(''name'', PyStr ''Eve''), (''age'', PyInt 25),
           (''city'', PyStr ''Los Angeles''), (''salary'', PyInt 30007)],
          [(''name'', PyStr ''Alice''), (''age'', PyInt 21),
           (''city'', PyStr ''Chicago''), (''salary'', PyInt 30003)]]"
    by (simp add: run_eval source_eval)
  from a1 a2 r1 r2 generate_data_atomic_permutation [OF a1 a2 r1 r2]
  show ?thesis by blast
qed

end
